theory Spec2Isabelle
  imports Complex_Main "HOL-Library.Extended_Nat"
begin

section \<open>Grid, cells and points\<close>

text \<open>
  The model follows \<open>LiveTrafficVisualizer\<close>. A point \<open>{x, y}\<close> is a pair of integers
  \<open>(x, y)\<close>; the string keys \<open>`${x},${y}`\<close> of the source's sets and maps are modelled by
  the pair itself (the key is injective on pairs of integers). The grid is an array of
  rows, indexed \<open>grid[y][x]\<close>. JavaScript numbers that hold integers are \<open>int\<close> or
  \<open>nat\<close>; a car's coordinates and speed are finite doubles, modelled as \<open>real\<close>.
  The \<open>await\<close> of a timer inside the searches only paces the drawing and is left out.
\<close>

definition GRID_ROWS :: nat where "GRID_ROWS = 60"
definition GRID_COLS :: nat where "GRID_COLS = 120"
definition CELL_SIZE :: nat where "CELL_SIZE = 8"

record cell =
  isWall :: bool
  isRoad :: bool
  isVisited :: bool
  isPath :: bool
  hasCar :: bool
  carId :: "nat option"

type_synonym grid = "cell list list"
type_synonym point = "int \<times> int"

datatype error = TypeError

text \<open>\<open>grid[y]\<close> and \<open>grid[y][x]\<close> are \<open>undefined\<close> outside the arrays.\<close>

definition cellAt :: "grid \<Rightarrow> nat \<Rightarrow> nat \<Rightarrow> cell option" where
  "cellAt gr x y =
     (if y < length gr \<and> x < length (gr ! y) then Some (gr ! y ! x) else None)"

definition wf_grid :: "grid \<Rightarrow> bool" where
  "wf_grid gr \<longleftrightarrow> length gr = GRID_ROWS \<and> (\<forall>row \<in> set gr. length row = GRID_COLS)"

section \<open>initializeCityGrid\<close>

definition wallCell :: cell where
  "wallCell = \<lparr>isWall = True, isRoad = False, isVisited = False, isPath = False,
                hasCar = False, carId = None\<rparr>"

text \<open>The two assignments \<open>.isWall = false; .isRoad = true\<close> on one cell.\<close>

definition asRoad :: "cell \<Rightarrow> cell" where
  "asRoad c = c\<lparr>isWall := False, isRoad := True\<rparr>"

definition setRoad :: "grid \<Rightarrow> nat \<Rightarrow> nat \<Rightarrow> grid" where
  "setRoad gr y x =
     (if y < length gr \<and> x < length (gr ! y)
      then gr[y := (gr ! y)[x := asRoad (gr ! y ! x)]] else gr)"

text \<open>
  The values taken by the counter of \<open>for (let i = a; i < bound; i += step)\<close>. Every
  such loop of the source has a positive constant step.
\<close>

function stepsFrom :: "nat \<Rightarrow> nat \<Rightarrow> nat \<Rightarrow> nat list" where
  "stepsFrom i bound step =
     (if 0 < step \<and> i < bound then i # stepsFrom (i + step) bound step else [])"
  by pat_completeness auto
termination
  by (relation "measure (\<lambda>(i, bound, step). bound - i)") auto

declare stepsFrom.simps [simp del]

definition mainHorizontal :: "grid \<Rightarrow> grid" where
  "mainHorizontal gr =
     fold (\<lambda>y. fold (\<lambda>x. fold (\<lambda>roadY g.
              if y + roadY < GRID_ROWS then setRoad g (y + roadY) x else g) [0..<2])
            [0..<GRID_COLS])
       (stepsFrom 8 GRID_ROWS 12) gr"

definition mainVertical :: "grid \<Rightarrow> grid" where
  "mainVertical gr =
     fold (\<lambda>x. fold (\<lambda>y. fold (\<lambda>roadX g.
              if x + roadX < GRID_COLS then setRoad g y (x + roadX) else g) [0..<2])
            [0..<GRID_ROWS])
       (stepsFrom 8 GRID_COLS 16) gr"

definition connectHorizontal :: "grid \<Rightarrow> grid" where
  "connectHorizontal gr =
     fold (\<lambda>y. fold (\<lambda>x g. setRoad g y x) [0..<GRID_COLS]) (stepsFrom 4 GRID_ROWS 24) gr"

definition connectVertical :: "grid \<Rightarrow> grid" where
  "connectVertical gr =
     fold (\<lambda>x. fold (\<lambda>y g. setRoad g y x) [0..<GRID_ROWS]) (stepsFrom 4 GRID_COLS 32) gr"

definition initializeCityGrid :: grid where
  "initializeCityGrid =
     connectVertical (connectHorizontal (mainVertical (mainHorizontal
       (replicate GRID_ROWS (replicate GRID_COLS wallCell)))))"

section \<open>getNeighbors and heuristic\<close>

text \<open>
  The source iterates \<open>[[0, 1], [1, 0], [0, -1], [-1, 0]]\<close> and destructures each entry
  as \<open>[dx, dy]\<close>. A missing row or cell of \<open>currentGrid\<close> makes the property read throw.
\<close>

definition directions :: "(int \<times> int) list" where
  "directions = [(0, 1), (1, 0), (0, -1), (-1, 0)]"

fun neighborsLoop :: "point \<Rightarrow> grid \<Rightarrow> (int \<times> int) list \<Rightarrow> point list \<Rightarrow> error + point list" where
  "neighborsLoop node currentGrid [] neighbors = Inr neighbors"
| "neighborsLoop node currentGrid ((dx, dy) # ds) neighbors =
     (let newX = fst node + dx; newY = snd node + dy in
      if newX \<ge> 0 \<and> newX < int GRID_COLS \<and> newY \<ge> 0 \<and> newY < int GRID_ROWS
      then (case cellAt currentGrid (nat newX) (nat newY) of
              None \<Rightarrow> Inl TypeError
            | Some c \<Rightarrow>
                if \<not> isWall c \<and> \<not> hasCar c
                then neighborsLoop node currentGrid ds (neighbors @ [(newX, newY)])
                else neighborsLoop node currentGrid ds neighbors)
      else neighborsLoop node currentGrid ds neighbors)"

definition getNeighbors :: "point \<Rightarrow> grid \<Rightarrow> error + point list" where
  "getNeighbors node currentGrid = neighborsLoop node currentGrid directions []"

definition heuristic :: "point \<Rightarrow> point \<Rightarrow> int" where
  "heuristic node goal = \<bar>fst node - fst goal\<bar> + \<bar>snd node - snd goal\<bar>"

text \<open>
  \<open>carves S gr gr'\<close>: the grid \<open>gr'\<close> is \<open>gr\<close> with the cells of \<open>S\<close> made road.
  \<open>carvedCells\<close> collects the cells the four loop nests of \<open>initializeCityGrid\<close> assign;
  \<open>carvingRule\<close> is the rule as the specification words it (bands every 12 rows from
  row 8 and every 16 columns from column 8, two cells wide; connectors at rows 4, 28, 52
  and columns 4, 36, 68, 100).
\<close>

definition carves :: "(nat \<times> nat) set \<Rightarrow> grid \<Rightarrow> grid \<Rightarrow> bool" where
  "carves S gr gr' \<longleftrightarrow>
     length gr' = length gr \<and>
     (\<forall>y < length gr. length (gr' ! y) = length (gr ! y) \<and>
        (\<forall>x < length (gr ! y).
           gr' ! y ! x = (if (x, y) \<in> S then asRoad (gr ! y ! x) else gr ! y ! x)))"

definition carvedCells :: "(nat \<times> nat) set" where
  "carvedCells =
     (\<Union>y \<in> set (stepsFrom 8 GRID_ROWS 12). \<Union>x \<in> set [0..<GRID_COLS]. \<Union>r \<in> set [0..<2].
        (if y + r < GRID_ROWS then {(x, y + r)} else {})) \<union>
     (\<Union>x \<in> set (stepsFrom 8 GRID_COLS 16). \<Union>y \<in> set [0..<GRID_ROWS]. \<Union>r \<in> set [0..<2].
        (if x + r < GRID_COLS then {(x + r, y)} else {})) \<union>
     (\<Union>y \<in> set (stepsFrom 4 GRID_ROWS 24). \<Union>x \<in> set [0..<GRID_COLS]. {(x, y)}) \<union>
     (\<Union>x \<in> set (stepsFrom 4 GRID_COLS 32). \<Union>y \<in> set [0..<GRID_ROWS]. {(x, y)})"

definition carvingRule :: "nat \<Rightarrow> nat \<Rightarrow> bool" where
  "carvingRule x y \<longleftrightarrow>
     y mod 12 = 8 \<or> y mod 12 = 9 \<or> x mod 16 = 8 \<or> x mod 16 = 9 \<or>
     y \<in> {4, 28, 52} \<or> x \<in> {4, 36, 68, 100}"

section \<open>The four searches\<close>

record result =
  path :: "point list"
  exploredCount :: int

text \<open>
  What a call does: it returns a result, it throws, or it never returns (the walk
  along the parent links is the one loop of a search that is not bounded by the grid).
\<close>

datatype outcome = Returned result | Thrown error | NoReturn

text \<open>
  \<open>while (curr) { path.unshift(curr); curr = parent.get(key(curr)); }\<close>: the current
  node is \<open>None\<close> once \<open>parent.get\<close> gives \<open>undefined\<close>.
\<close>

partial_function (option) reconstructPath ::
  "(point \<rightharpoonup> point) \<Rightarrow> point option \<Rightarrow> point list \<Rightarrow> point list option" where
  "reconstructPath parent cur built =
     (case cur of
        None \<Rightarrow> Some built
      | Some c \<Rightarrow> reconstructPath parent (parent c) (c # built))"

definition returnPath :: "(point \<rightharpoonup> point) \<Rightarrow> point \<Rightarrow> int \<Rightarrow> outcome" where
  "returnPath parent current count =
     (case reconstructPath parent (Some current) [] of
        None \<Rightarrow> NoReturn
      | Some p \<Rightarrow> Returned \<lparr>path = p, exploredCount = count\<rparr>)"

text \<open>The cells of the grid, as points.\<close>

definition cells :: "point set" where
  "cells = {0..<int GRID_COLS} \<times> {0..<int GRID_ROWS}"

subsection \<open>runDFS and runBFS\<close>

text \<open>
  The loop over the neighbors is the same text in \<open>runDFS\<close> and \<open>runBFS\<close>: a neighbor
  not yet in \<open>visited\<close> is added to it, gets \<open>current\<close> as parent and is pushed at the
  end of the stack or queue.
\<close>

fun visitNeighbors ::
  "point \<Rightarrow> point list \<Rightarrow> point list \<times> point set \<times> (point \<rightharpoonup> point) \<Rightarrow>
   point list \<times> point set \<times> (point \<rightharpoonup> point)" where
  "visitNeighbors current [] st = st"
| "visitNeighbors current (neighbor # ns) (frontier, visited, parent) =
     (if neighbor \<notin> visited
      then visitNeighbors current ns
             (frontier @ [neighbor], insert neighbor visited, parent(neighbor \<mapsto> current))
      else visitNeighbors current ns (frontier, visited, parent))"

text \<open>
  The termination proofs of the search loops measure the cells of the grid that are
  not yet visited: \<open>getNeighbors\<close> only yields cells of the grid.
\<close>

lemma finite_cells: "finite cells"
  by (simp add: cells_def)

lemma neighborsLoop_cells:
  "neighborsLoop node gr ds acc0 = Inr ns \<Longrightarrow> set acc0 \<subseteq> cells \<Longrightarrow> set ns \<subseteq> cells"
proof (induction node gr ds acc0 rule: neighborsLoop.induct)
  case (1 node currentGrid neighbors)
  then show ?case by simp
next
  case (2 node currentGrid dx dy ds neighbors)
  then show ?case
    by (auto simp: Let_def cells_def split: if_splits option.splits)
qed

lemma getNeighbors_cells: "getNeighbors node gr = Inr ns \<Longrightarrow> set ns \<subseteq> cells"
  unfolding getNeighbors_def using neighborsLoop_cells by fastforce

text \<open>Each push takes one cell out of the unvisited cells.\<close>

lemma visitNeighbors_measure:
  "visitNeighbors current ns (frontier, visited, parent) = (frontier', visited', parent') \<Longrightarrow>
   set ns \<subseteq> cells \<Longrightarrow>
   2 * card (cells - visited') + length frontier' \<le> 2 * card (cells - visited) + length frontier"
proof (induction ns arbitrary: frontier visited parent)
  case Nil
  then show ?case by simp
next
  case (Cons n ns)
  show ?case
  proof (cases "n \<in> visited")
    case True
    with Cons show ?thesis by simp
  next
    case False
    have n: "n \<in> cells - visited" using False Cons.prems by simp
    have fin: "finite (cells - visited)" using finite_cells by simp
    have "cells - insert n visited = (cells - visited) - {n}" by blast
    then have c: "card (cells - insert n visited) = card (cells - visited) - 1"
      using n fin by simp
    have pos: "card (cells - visited) > 0" using n fin card_gt_0_iff by blast
    have "2 * card (cells - visited') + length frontier'
            \<le> 2 * card (cells - insert n visited) + length (frontier @ [n])"
      by (rule Cons.IH) (use Cons.prems False in simp_all)
    then show ?thesis using c pos by simp
  qed
qed

function dfsLoop ::
  "grid \<Rightarrow> point \<Rightarrow> point list \<Rightarrow> point set \<Rightarrow> (point \<rightharpoonup> point) \<Rightarrow> int \<Rightarrow> outcome" where
  "dfsLoop currentGrid endP stack visited parent count =
     (if stack = [] then Returned \<lparr>path = [], exploredCount = count\<rparr>
      else
        let current = last stack; rest = butlast stack; count' = count + 1 in
        if current = endP then returnPath parent current count'
        else
          (case getNeighbors current currentGrid of
             Inl e \<Rightarrow> Thrown e
           | Inr neighbors \<Rightarrow>
               (case visitNeighbors current neighbors (rest, visited, parent) of
                  (stack', visited', parent') \<Rightarrow>
                    dfsLoop currentGrid endP stack' visited' parent' count')))"
  by pat_completeness auto

termination
proof (relation "measure (\<lambda>(currentGrid, endP, stack, visited, parent, count).
                    2 * card (cells - visited) + length stack)", goal_cases)
  case 1
  then show ?case by simp
next
  case (2 currentGrid endP stack visited parent count current rest count' neighbors stack' vp visited' parent')
  have vn: "visitNeighbors (last stack) neighbors (butlast stack, visited, parent)
          = (stack', visited', parent')"
    using 2 by simp
  have sub: "set neighbors \<subseteq> cells"
    using 2 getNeighbors_cells by blast
  have "2 * card (cells - visited') + length stack'
               \<le> 2 * card (cells - visited) + length (butlast stack)"
    by (rule visitNeighbors_measure [OF vn sub])
  moreover have "length (butlast stack) < length stack" using 2 by simp
  ultimately show ?case by simp
qed

declare dfsLoop.simps [simp del]

definition runDFS :: "grid \<Rightarrow> point \<Rightarrow> point \<Rightarrow> outcome" where
  "runDFS currentGrid start endP = dfsLoop currentGrid endP [start] {start} Map.empty 0"

function bfsLoop ::
  "grid \<Rightarrow> point \<Rightarrow> point list \<Rightarrow> point set \<Rightarrow> (point \<rightharpoonup> point) \<Rightarrow> int \<Rightarrow> outcome" where
  "bfsLoop currentGrid endP queue visited parent count =
     (case queue of
        [] \<Rightarrow> Returned \<lparr>path = [], exploredCount = count\<rparr>
      | current # rest \<Rightarrow>
          let count' = count + 1 in
          if current = endP then returnPath parent current count'
          else
            (case getNeighbors current currentGrid of
               Inl e \<Rightarrow> Thrown e
             | Inr neighbors \<Rightarrow>
                 (case visitNeighbors current neighbors (rest, visited, parent) of
                    (queue', visited', parent') \<Rightarrow>
                      bfsLoop currentGrid endP queue' visited' parent' count')))"
  by pat_completeness auto
termination
proof (relation "measure (\<lambda>(currentGrid, endP, queue, visited, parent, count).
                    2 * card (cells - visited) + length queue)", goal_cases)
  case 1
  then show ?case by simp
next
  case (2 currentGrid endP queue visited parent count current rest count' neighbors queue' vp visited' parent')
  have vn: "visitNeighbors current neighbors (rest, visited, parent) = (queue', visited', parent')"
    using 2 by simp
  have sub: "set neighbors \<subseteq> cells"
    using 2 getNeighbors_cells by blast
  have "2 * card (cells - visited') + length queue'
               \<le> 2 * card (cells - visited) + length rest"
    by (rule visitNeighbors_measure [OF vn sub])
  then show ?case using 2 by simp
qed

declare bfsLoop.simps [simp del]

definition runBFS :: "grid \<Rightarrow> point \<Rightarrow> point \<Rightarrow> outcome" where
  "runBFS currentGrid start endP = bfsLoop currentGrid endP [start] {start} Map.empty 0"

subsection \<open>runAStar\<close>

text \<open>
  An entry \<open>{x, y, f, g, h}\<close> of \<open>openSet\<close>. \<open>cameFrom\<close> stores the node object
  \<open>current\<close>, of which the path reconstruction reads \<open>x\<close> and \<open>y\<close> only (they are
  never assigned), so the model stores its position.
\<close>

record node =
  node_x :: int
  node_y :: int
  node_f :: int
  node_g :: int
  node_h :: int

definition nodePos :: "node \<Rightarrow> point" where
  "nodePos n = (node_x n, node_y n)"

text \<open>
  \<open>existingNode.g = tentativeG; existingNode.f = tentativeG + h\<close> on the node that
  \<open>openSet.find\<close> returned: the first one of \<open>openSet\<close> at that position.
\<close>

fun assignExisting :: "point \<Rightarrow> int \<Rightarrow> int \<Rightarrow> node list \<Rightarrow> node list" where
  "assignExisting p newG newF [] = []"
| "assignExisting p newG newF (n # ns) =
     (if node_x n = fst p \<and> node_y n = snd p
      then n\<lparr>node_g := newG, node_f := newF\<rparr> # ns
      else n # assignExisting p newG newF ns)"

fun astarNeighbors ::
  "point \<Rightarrow> node \<Rightarrow> point set \<Rightarrow> point list \<Rightarrow> node list \<times> (point \<rightharpoonup> point) \<Rightarrow>
   node list \<times> (point \<rightharpoonup> point)" where
  "astarNeighbors endP current closedSet [] st = st"
| "astarNeighbors endP current closedSet (neighbor # ns) (openSet, cameFrom) =
     (if neighbor \<in> closedSet then astarNeighbors endP current closedSet ns (openSet, cameFrom)
      else
        let tentativeG = node_g current + 1;
            h = heuristic neighbor endP;
            neighborNode = \<lparr>node_x = fst neighbor, node_y = snd neighbor,
                            node_f = tentativeG + h, node_g = tentativeG, node_h = h\<rparr>
        in
        (case find (\<lambda>n. node_x n = fst neighbor \<and> node_y n = snd neighbor) openSet of
           None \<Rightarrow>
             astarNeighbors endP current closedSet ns
               (openSet @ [neighborNode], cameFrom(neighbor \<mapsto> nodePos current))
         | Some existingNode \<Rightarrow>
             if tentativeG < node_g existingNode
             then astarNeighbors endP current closedSet ns
                    (assignExisting neighbor tentativeG (tentativeG + h) openSet,
                     cameFrom(neighbor \<mapsto> nodePos current))
             else astarNeighbors endP current closedSet ns (openSet, cameFrom)))"

lemma set_assignExisting_pos:
  "nodePos ` set (assignExisting p newG newF ns) = nodePos ` set ns"
  by (induction ns) (auto simp: nodePos_def)

lemma length_assignExisting: "length (assignExisting p newG newF ns) = length ns"
  by (induction ns) auto

lemma find_None_pos:
  "find (\<lambda>n. node_x n = fst p \<and> node_y n = snd p) ns = None \<longleftrightarrow> p \<notin> nodePos ` set ns"
  by (induction ns) (auto simp: nodePos_def)

lemma astarNeighbors_measure:
  "astarNeighbors endP current closedSet ns (openSet, cameFrom) = (openSet', cameFrom') \<Longrightarrow>
   set ns \<subseteq> cells \<Longrightarrow>
   2 * card (cells - closedSet - nodePos ` set openSet') + length openSet'
     \<le> 2 * card (cells - closedSet - nodePos ` set openSet) + length openSet"
proof (induction ns arbitrary: openSet cameFrom)
  case Nil
  then show ?case by simp
next
  case (Cons n ns)
  let ?h = "heuristic n endP"
  let ?g = "node_g current + 1"
  show ?case
  proof (cases "n \<in> closedSet")
    case True
    with Cons show ?thesis by simp
  next
    case False
    show ?thesis
    proof (cases "find (\<lambda>m. node_x m = fst n \<and> node_y m = snd n) openSet")
      case None
      let ?new = "\<lparr>node_x = fst n, node_y = snd n, node_f = ?g + ?h, node_g = ?g, node_h = ?h\<rparr>"
      let ?U = "cells - closedSet - nodePos ` set openSet"
      have nin: "n \<in> ?U"
        using None False Cons.prems by (simp add: find_None_pos)
      have fin: "finite ?U" using finite_cells by simp
      have "cells - closedSet - nodePos ` set (openSet @ [?new]) = ?U - {n}"
        by (auto simp: nodePos_def)
      then have c: "card (cells - closedSet - nodePos ` set (openSet @ [?new])) = card ?U - 1"
        using nin fin by simp
      have pos: "card ?U > 0" using nin fin card_gt_0_iff by blast
      have "2 * card (cells - closedSet - nodePos ` set openSet') + length openSet'
              \<le> 2 * card (cells - closedSet - nodePos ` set (openSet @ [?new]))
                  + length (openSet @ [?new])"
        by (rule Cons.IH) (use Cons.prems False None in \<open>simp_all add: Let_def\<close>)
      then show ?thesis using c pos by simp
    next
      case (Some existingNode)
      show ?thesis
      proof (cases "?g < node_g existingNode")
        case True
        have "2 * card (cells - closedSet - nodePos ` set openSet') + length openSet'
              \<le> 2 * card (cells - closedSet
                      - nodePos ` set (assignExisting n ?g (?g + ?h) openSet))
                  + length (assignExisting n ?g (?g + ?h) openSet)"
          by (rule Cons.IH) (use Cons.prems False Some True in \<open>simp_all add: Let_def\<close>)
        then show ?thesis
          by (simp add: set_assignExisting_pos length_assignExisting)
      next
        case False2: False
        show ?thesis
          by (rule Cons.IH) (use Cons.prems False Some False2 in \<open>simp_all add: Let_def\<close>)
      qed
    qed
  qed
qed

text \<open>
  \<open>openSet.sort((a, b) => a.f - b.f)\<close> is a stable sort on \<open>f\<close>, as \<open>sort_key\<close> is;
  it sorts the array in place, \<open>shift\<close> then takes the first node.
\<close>

function astarLoop ::
  "grid \<Rightarrow> point \<Rightarrow> node list \<Rightarrow> point set \<Rightarrow> (point \<rightharpoonup> point) \<Rightarrow> int \<Rightarrow> outcome" where
  "astarLoop currentGrid endP openSet closedSet cameFrom count =
     (case sort_key node_f openSet of
        [] \<Rightarrow> Returned \<lparr>path = [], exploredCount = count\<rparr>
      | current # rest \<Rightarrow>
          if node_x current = fst endP \<and> node_y current = snd endP
          then returnPath cameFrom (nodePos current) count
          else
            let closedSet' = insert (nodePos current) closedSet; count' = count + 1 in
            (case getNeighbors (nodePos current) currentGrid of
               Inl e \<Rightarrow> Thrown e
             | Inr neighbors \<Rightarrow>
                 (case astarNeighbors endP current closedSet' neighbors (rest, cameFrom) of
                    (openSet', cameFrom') \<Rightarrow>
                      astarLoop currentGrid endP openSet' closedSet' cameFrom' count')))"
  by pat_completeness auto
termination
proof (relation "measure (\<lambda>(currentGrid, endP, openSet, closedSet, cameFrom, count).
          2 * card (cells - closedSet - nodePos ` set openSet) + length openSet)", goal_cases)
  case 1
  then show ?case by simp
next
  case (2 currentGrid endP openSet closedSet cameFrom count current rest closedSet' count'
          neighbors openSet' cameFrom')
  have an: "astarNeighbors endP current closedSet' neighbors (rest, cameFrom)
              = (openSet', cameFrom')"
    using 2 by simp
  have sub: "set neighbors \<subseteq> cells"
    using 2 getNeighbors_cells by blast
  have le: "2 * card (cells - closedSet' - nodePos ` set openSet') + length openSet'
              \<le> 2 * card (cells - closedSet' - nodePos ` set rest) + length rest"
    by (rule astarNeighbors_measure [OF an sub])
  have "set openSet = set (sort_key node_f openSet)" by simp
  then have s: "set openSet = insert current (set rest)" using 2 by simp
  have "length openSet = length (sort_key node_f openSet)" by simp
  then have l: "length openSet = Suc (length rest)" using 2 by simp
  have "cells - closedSet' - nodePos ` set rest = cells - closedSet - nodePos ` set openSet"
    using 2 s by auto
  then show ?case using le l 2 by simp
qed

declare astarLoop.simps [simp del]

definition runAStar :: "grid \<Rightarrow> point \<Rightarrow> point \<Rightarrow> outcome" where
  "runAStar currentGrid start endP =
     astarLoop currentGrid endP
       [\<lparr>node_x = fst start, node_y = snd start, node_f = 0, node_g = 0,
         node_h = heuristic start endP\<rparr>] {} Map.empty 0"

subsection \<open>runDijkstra\<close>

text \<open>
  \<open>distances\<close> is an array of \<open>GRID_ROWS\<close> rows filled with \<open>Infinity\<close>: reading a
  missing row throws, reading a missing entry of a row gives \<open>undefined\<close> (\<open>None\<close>
  here), and \<open>undefined + 1\<close> is \<open>NaN\<close>, which is less than nothing. An entry
  \<open>{x, y, dist}\<close> of the priority queue is a pair of the position and the distance;
  the queue is sorted on \<open>dist\<close> by a stable sort.
\<close>

type_synonym distances = "point \<Rightarrow> enat option"

definition initialDistances :: distances where
  "initialDistances = (\<lambda>p. if p \<in> cells then Some \<infinity> else None)"

definition rowDefined :: "point \<Rightarrow> bool" where
  "rowDefined p \<longleftrightarrow> 0 \<le> snd p \<and> snd p < int GRID_ROWS"

fun dijkstraNeighbors ::
  "point \<Rightarrow> point set \<Rightarrow> point list \<Rightarrow>
   distances \<times> (point \<rightharpoonup> point) \<times> (point \<times> enat) list \<Rightarrow>
   error + distances \<times> (point \<rightharpoonup> point) \<times> (point \<times> enat) list" where
  "dijkstraNeighbors current visited [] st = Inr st"
| "dijkstraNeighbors current visited (neighbor # ns) (distances, parent, priorityQueue) =
     (if neighbor \<in> visited
      then dijkstraNeighbors current visited ns (distances, parent, priorityQueue)
      else if \<not> rowDefined current then Inl TypeError
      else
        (case distances current of
           None \<Rightarrow>
             if \<not> rowDefined neighbor then Inl TypeError
             else dijkstraNeighbors current visited ns (distances, parent, priorityQueue)
         | Some d \<Rightarrow>
             let newDist = d + 1 in
             if \<not> rowDefined neighbor then Inl TypeError
             else
               (case distances neighbor of
                  None \<Rightarrow> dijkstraNeighbors current visited ns (distances, parent, priorityQueue)
                | Some old \<Rightarrow>
                    if newDist < old
                    then dijkstraNeighbors current visited ns
                           (distances(neighbor \<mapsto> newDist), parent(neighbor \<mapsto> current),
                            priorityQueue @ [(neighbor, newDist)])
                    else dijkstraNeighbors current visited ns
                           (distances, parent, priorityQueue))))"

lemma dijkstraNeighbors_queue:
  "dijkstraNeighbors current visited ns (distances, parent, priorityQueue)
     = Inr (distances', parent', priorityQueue') \<Longrightarrow>
   fst ` set priorityQueue' \<subseteq> fst ` set priorityQueue \<union> set ns"
proof (induction ns arbitrary: distances parent priorityQueue)
  case Nil
  then show ?case by simp
next
  case (Cons n ns)
  from Cons.prems show ?case
    apply (auto simp: Let_def split: if_splits option.splits dest!: Cons.IH)
    apply (metis (no_types, lifting) fst_conv image_eqI insertE subsetD UnE)
    done
qed

function dijkstraLoop ::
  "grid \<Rightarrow> point \<Rightarrow> distances \<Rightarrow> (point \<rightharpoonup> point) \<Rightarrow> (point \<times> enat) list \<Rightarrow> point set \<Rightarrow>
   int \<Rightarrow> outcome" where
  "dijkstraLoop currentGrid endP distances parent priorityQueue visited count =
     (case sort_key snd priorityQueue of
        [] \<Rightarrow> Returned \<lparr>path = [], exploredCount = count\<rparr>
      | current # rest \<Rightarrow>
          if fst current \<in> visited
          then dijkstraLoop currentGrid endP distances parent rest visited count
          else
            let visited' = insert (fst current) visited; count' = count + 1 in
            if fst current = endP then returnPath parent endP count'
            else
              (case getNeighbors (fst current) currentGrid of
                 Inl e \<Rightarrow> Thrown e
               | Inr neighbors \<Rightarrow>
                   (case dijkstraNeighbors (fst current) visited' neighbors
                           (distances, parent, rest) of
                      Inl e \<Rightarrow> Thrown e
                    | Inr (distances', parent', priorityQueue') \<Rightarrow>
                        dijkstraLoop currentGrid endP distances' parent' priorityQueue'
                          visited' count')))"
  by pat_completeness auto
termination
proof (relation "inv_image (less_than <*lex*> less_than)
          (\<lambda>(currentGrid, endP, distances, parent, priorityQueue, visited, count).
             (card ((cells \<union> fst ` set priorityQueue) - visited), length priorityQueue))",
       goal_cases)
  case 1
  then show ?case by (intro wf_inv_image wf_lex_prod wf_less_than)
next
  case (2 currentGrid endP distances parent priorityQueue visited count current rest)
  have "set priorityQueue = set (sort_key snd priorityQueue)" by simp
  then have s: "set priorityQueue = insert current (set rest)" using 2 by simp
  have "length priorityQueue = length (sort_key snd priorityQueue)" by simp
  then have l: "length priorityQueue = Suc (length rest)" using 2 by simp
  have "(cells \<union> fst ` set rest) - visited \<subseteq> (cells \<union> fst ` set priorityQueue) - visited"
    using s by auto
  then have "card ((cells \<union> fst ` set rest) - visited)
               \<le> card ((cells \<union> fst ` set priorityQueue) - visited)"
    by (intro card_mono) (simp_all add: finite_cells)
  then show ?case using l by auto
next
  case (3 currentGrid endP distances parent priorityQueue visited count current rest visited'
          count' neighbors st distances' pq parent' priorityQueue')
  have "set priorityQueue = set (sort_key snd priorityQueue)" by simp
  then have s: "set priorityQueue = insert current (set rest)" using 3 by simp
  have dn: "dijkstraNeighbors (fst current) visited' neighbors (distances, parent, rest)
              = Inr (distances', parent', priorityQueue')"
    using 3 by simp
  have sub: "set neighbors \<subseteq> cells"
    using 3 getNeighbors_cells by blast
  have q: "fst ` set priorityQueue' \<subseteq> fst ` set rest \<union> set neighbors"
    by (rule dijkstraNeighbors_queue [OF dn])
  have "(cells \<union> fst ` set priorityQueue') - visited'
          \<subset> (cells \<union> fst ` set priorityQueue) - visited"
    using q sub s 3 by auto
  then have "card ((cells \<union> fst ` set priorityQueue') - visited')
               < card ((cells \<union> fst ` set priorityQueue) - visited)"
    by (intro psubset_card_mono) (simp_all add: finite_cells)
  then show ?case by simp
qed

declare dijkstraLoop.simps [simp del]

text \<open>
  \<open>distances[start.y][start.x] = 0\<close> throws when the row is missing, and otherwise
  defines the entry, also outside the columns of the grid.
\<close>

definition runDijkstra :: "grid \<Rightarrow> point \<Rightarrow> point \<Rightarrow> outcome" where
  "runDijkstra currentGrid start endP =
     (if rowDefined start
      then dijkstraLoop currentGrid endP (initialDistances(start \<mapsto> 0)) Map.empty
             [(start, 0)] {} 0
      else Thrown TypeError)"

section \<open>moveCars\<close>

text \<open>
  A car \<open>{id, x, y, direction, speed, color, stuckTime}\<close>. \<open>random k\<close> stands for the
  value of the \<open>k\<close>-th call of \<open>Math.random()\<close>, a number in \<open>[0, 1)\<close>; the update of a
  car returns the new car and the number of calls made so far. Indexing \<open>directions\<close>
  with a direction that is not one of 0 to 3 gives \<open>undefined\<close>, whose \<open>dx\<close> throws.
\<close>

record car =
  car_id :: nat
  car_x :: real
  car_y :: real
  direction :: nat
  speed :: real
  color :: string
  stuckTime :: nat

definition carDirections :: "(real \<times> real) list" where
  "carDirections = [(1, 0), (0, 1), (-1, 0), (0, -1)]"

text \<open>
  \<open>grid[nextCellY] && grid[nextCellY][nextCellX] && grid[nextCellY][nextCellX].isWall\<close>,
  read once the cell is known to lie within \<open>GRID_COLS\<close> and \<open>GRID_ROWS\<close>.
\<close>

definition wallAt :: "grid \<Rightarrow> int \<Rightarrow> int \<Rightarrow> bool" where
  "wallAt gr cx cy = (case cellAt gr (nat cx) (nat cy) of None \<Rightarrow> False | Some c \<Rightarrow> isWall c)"

definition collides :: "car list \<Rightarrow> car \<Rightarrow> real \<Rightarrow> real \<Rightarrow> bool" where
  "collides prevCars c newX newY =
     list_ex (\<lambda>otherCar. car_id otherCar \<noteq> car_id c \<and>
                \<bar>car_x otherCar - newX\<bar> < 0.8 \<and> \<bar>car_y otherCar - newY\<bar> < 0.8) prevCars"

definition moveCar ::
  "grid \<Rightarrow> car list \<Rightarrow> (nat \<Rightarrow> real) \<Rightarrow> car \<Rightarrow> nat \<Rightarrow> error + car \<times> nat" where
  "moveCar gr prevCars random c k =
     (if direction c < length carDirections
      then
        let dir = carDirections ! direction c;
            newX = car_x c + fst dir * speed c;
            newY = car_y c + snd dir * speed c;
            nextCellX = \<lfloor>newX\<rfloor>;
            nextCellY = \<lfloor>newY\<rfloor>
        in
        if nextCellX < 0 \<or> nextCellX \<ge> int GRID_COLS \<or> nextCellY < 0 \<or>
           nextCellY \<ge> int GRID_ROWS \<or> wallAt gr nextCellX nextCellY
        then Inr (c\<lparr>direction := nat \<lfloor>random k * 4\<rfloor>, stuckTime := 0\<rparr>, k + 1)
        else if collides prevCars c newX newY
        then
          if stuckTime c > 20
          then Inr (c\<lparr>direction := (direction c + 1 + nat \<lfloor>random k * 2\<rfloor>) mod 4,
                       stuckTime := 0\<rparr>, k + 1)
          else Inr (c\<lparr>stuckTime := stuckTime c + 1\<rparr>, k)
        else if random k < 0.001
        then Inr (c\<lparr>direction := nat \<lfloor>random (k + 1) * 4\<rfloor>, car_x := newX, car_y := newY,
                     stuckTime := 0\<rparr>, k + 2)
        else Inr (c\<lparr>car_x := newX, car_y := newY, stuckTime := 0\<rparr>, k + 1)
      else Inl TypeError)"

text \<open>\<open>prevCars.map(car => ...)\<close>: every car is updated against the list \<open>prevCars\<close>.\<close>

fun mapCars ::
  "grid \<Rightarrow> car list \<Rightarrow> (nat \<Rightarrow> real) \<Rightarrow> car list \<Rightarrow> nat \<Rightarrow> error + car list \<times> nat" where
  "mapCars gr prevCars random [] k = Inr ([], k)"
| "mapCars gr prevCars random (c # cs) k =
     (case moveCar gr prevCars random c k of
        Inl e \<Rightarrow> Inl e
      | Inr (c', k') \<Rightarrow>
          (case mapCars gr prevCars random cs k' of
             Inl e \<Rightarrow> Inl e
           | Inr (cs', k'') \<Rightarrow> Inr (c' # cs', k'')))"

definition moveCars :: "grid \<Rightarrow> car list \<Rightarrow> (nat \<Rightarrow> real) \<Rightarrow> nat \<Rightarrow> error + car list \<times> nat" where
  "moveCars gr prevCars random k = mapCars gr prevCars random prevCars k"

text \<open>The cell a car occupies, and the invariant on a car's position.\<close>

definition carCell :: "car \<Rightarrow> point" where
  "carCell c = (\<lfloor>car_x c\<rfloor>, \<lfloor>car_y c\<rfloor>)"


text \<open>
  The candidate position \<open>(newX, newY)\<close> of a car, whether its cell lies in the grid and
  is no wall, and the collision test as the specification words it: some other car of
  the list is closer than 0.8 to the candidate on both axes.
\<close>

definition candidate :: "car \<Rightarrow> real \<times> real" where
  "candidate c =
     (car_x c + fst (carDirections ! direction c) * speed c,
      car_y c + snd (carDirections ! direction c) * speed c)"

definition candidateFree :: "grid \<Rightarrow> car \<Rightarrow> bool" where
  "candidateFree gr c \<longleftrightarrow>
     (\<lfloor>fst (candidate c)\<rfloor>, \<lfloor>snd (candidate c)\<rfloor>) \<in> cells \<and>
     \<not> wallAt gr \<lfloor>fst (candidate c)\<rfloor> \<lfloor>snd (candidate c)\<rfloor>"


text \<open>Four cars on the generated grid, for the examples.\<close>

definition waitingCar :: car where
  "waitingCar = \<lparr>car_id = 0, car_x = 10, car_y = 8, direction = 0, speed = 1/2,
                   color = ''#FF6B6B'', stuckTime = 3\<rparr>"

definition stuckCar :: car where
  "stuckCar = \<lparr>car_id = 1, car_x = 11, car_y = 8, direction = 1, speed = 1/2,
                 color = ''#4ECDC4'', stuckTime = 21\<rparr>"

definition freeCar :: car where
  "freeCar = \<lparr>car_id = 2, car_x = 11, car_y = 9, direction = 1, speed = 1/4,
                color = ''#45B7D1'', stuckTime = 0\<rparr>"

definition facingWallCar :: car where
  "facingWallCar = \<lparr>car_id = 3, car_x = 20, car_y = 8, direction = 3, speed = 1/2,
                      color = ''#96CEB4'', stuckTime = 0\<rparr>"

definition demoCars :: "car list" where
  "demoCars = [waitingCar, stuckCar, freeCar, facingWallCar]"

section \<open>handleCanvasClick\<close>

text \<open>
  The part of the component's state that a click reads and writes. The click arrives
  as the offsets \<open>e.clientX - rect.left\<close> and \<open>e.clientY - rect.top\<close>.
\<close>

record selection =
  startPoint :: "point option"
  endPoint :: "point option"
  currentPath :: "point list"

definition occupied :: "car list \<Rightarrow> int \<Rightarrow> int \<Rightarrow> bool" where
  "occupied cars cx cy = list_ex (\<lambda>c. \<lfloor>car_x c\<rfloor> = cx \<and> \<lfloor>car_y c\<rfloor> = cy) cars"

definition handleCanvasClick ::
  "grid \<Rightarrow> car list \<Rightarrow> selection \<Rightarrow> real \<Rightarrow> real \<Rightarrow> selection" where
  "handleCanvasClick gr cars s offsetX offsetY =
     (let cx = \<lfloor>offsetX / real CELL_SIZE\<rfloor>; cy = \<lfloor>offsetY / real CELL_SIZE\<rfloor> in
      if cx < 0 \<or> cx \<ge> int GRID_COLS \<or> cy < 0 \<or> cy \<ge> int GRID_ROWS then s
      else if (case cellAt gr (nat cx) (nat cy) of None \<Rightarrow> False | Some c \<Rightarrow> \<not> isWall c) \<and>
              \<not> occupied cars cx cy
      then
        (if startPoint s = None then s\<lparr>startPoint := Some (cx, cy)\<rparr>
         else if endPoint s = None then s\<lparr>endPoint := Some (cx, cy)\<rparr>
         else s\<lparr>startPoint := Some (cx, cy), endPoint := None, currentPath := []\<rparr>)
      else s)"

section \<open>Routes\<close>

text \<open>
  A cell is traversable when it lies in the grid and is neither a wall nor occupied.
  \<open>nbrs\<close> is the list \<open>getNeighbors\<close> returns (empty when it throws), \<open>route\<close> a
  non-empty sequence of points in which every next point is a neighbor of the one
  before, in the sense of \<open>getNeighbors\<close>; its length counts the cells.
\<close>

definition traversable :: "grid \<Rightarrow> point \<Rightarrow> bool" where
  "traversable gr p \<longleftrightarrow>
     p \<in> cells \<and>
     (case cellAt gr (nat (fst p)) (nat (snd p)) of
        None \<Rightarrow> False
      | Some c \<Rightarrow> \<not> isWall c \<and> \<not> hasCar c)"

definition nbrs :: "grid \<Rightarrow> point \<Rightarrow> point list" where
  "nbrs gr p = (case getNeighbors p gr of Inl e \<Rightarrow> [] | Inr ns \<Rightarrow> ns)"

fun route :: "grid \<Rightarrow> point list \<Rightarrow> bool" where
  "route gr [] = False"
| "route gr [a] = True"
| "route gr (a # b # ps) = (b \<in> set (nbrs gr a) \<and> route gr (b # ps))"

definition routeBetween :: "grid \<Rightarrow> point \<Rightarrow> point \<Rightarrow> point list \<Rightarrow> bool" where
  "routeBetween gr start endP ps \<longleftrightarrow> route gr ps \<and> hd ps = start \<and> last ps = endP"

text \<open>
  \<open>links parent v ps\<close>: walking the parent links from \<open>v\<close> ends at a point without
  parent, and \<open>ps\<close> lists the points met, the last one met first.
\<close>

inductive links :: "(point \<rightharpoonup> point) \<Rightarrow> point \<Rightarrow> point list \<Rightarrow> bool" where
  root: "parent v = None \<Longrightarrow> links parent v [v]"
| step: "parent v = Some u \<Longrightarrow> links parent u ps \<Longrightarrow> links parent v (ps @ [v])"

text \<open>
  The invariant of the loops of runDFS and runBFS. \<open>d\<close> gives every visited point the
  number of steps of its chain of parents: the chain of a visited point is a route from
  \<open>start\<close> through visited points, and a visited point that has left the frontier is
  not \<open>endP\<close> and has all its neighbors visited.
\<close>

definition treeInv ::
  "grid \<Rightarrow> point \<Rightarrow> point \<Rightarrow> (point \<Rightarrow> nat) \<Rightarrow> point list \<Rightarrow> point set \<Rightarrow> (point \<rightharpoonup> point) \<Rightarrow>
   bool" where
  "treeInv gr start endP d frontier visited parent \<longleftrightarrow>
     start \<in> visited \<and> d start = 0 \<and> set frontier \<subseteq> visited \<and>
     (\<forall>v \<in> visited. \<exists>ps. links parent v ps \<and> hd ps = start \<and> route gr ps \<and>
                         set ps \<subseteq> visited \<and> length ps = Suc (d v)) \<and>
     (\<forall>u \<in> visited - set frontier. u \<noteq> endP \<and> set (nbrs gr u) \<subseteq> visited)"

text \<open>
  The order of the queue of runBFS: the depths are ascending and span at most one
  level, and no point that has left the queue is deeper than the head or has a
  neighbor more than one level deeper than itself.
\<close>

definition bfsOrder :: "grid \<Rightarrow> (point \<Rightarrow> nat) \<Rightarrow> point list \<Rightarrow> point set \<Rightarrow> bool" where
  "bfsOrder gr d queue visited \<longleftrightarrow>
     sorted (map d queue) \<and>
     (\<forall>v \<in> set queue. d v \<le> Suc (d (hd queue))) \<and>
     (\<forall>u \<in> visited - set queue.
        (\<forall>v \<in> set queue. d u \<le> d v) \<and> (\<forall>w \<in> set (nbrs gr u). d w \<le> Suc (d u)))"

text \<open>
  What a search owes its caller: a count that is not negative and either the empty
  path, when no route leads from \<open>start\<close> to \<open>endP\<close>, or a route from \<open>start\<close> to
  \<open>endP\<close>. A route is shortest when no route between the same points has fewer cells.
\<close>

definition searched :: "grid \<Rightarrow> point \<Rightarrow> point \<Rightarrow> result \<Rightarrow> bool" where
  "searched gr start endP r \<longleftrightarrow>
     0 \<le> exploredCount r \<and>
     ((path r = [] \<and> (\<forall>q. \<not> routeBetween gr start endP q)) \<or>
      routeBetween gr start endP (path r))"

definition shortest :: "grid \<Rightarrow> point \<Rightarrow> point \<Rightarrow> point list \<Rightarrow> bool" where
  "shortest gr start endP ps \<longleftrightarrow>
     routeBetween gr start endP ps \<and>
     (\<forall>q. routeBetween gr start endP q \<longrightarrow> length ps \<le> length q)"

text \<open>
  The invariant of the loop of runDijkstra. A point is known once its distance is
  finite. The chain of parents of a known point is a route from \<open>start\<close> of that many
  steps through visited points; a known point not yet visited has an entry with its
  distance in the queue; no entry is below the distance of its point or of a visited
  point; a visited point is not \<open>endP\<close>, and its neighbors are known and at most one
  step farther.
\<close>

definition known :: "distances \<Rightarrow> point \<Rightarrow> bool" where
  "known distances v \<longleftrightarrow> (\<exists>n. distances v = Some (enat n))"

definition distOf :: "distances \<Rightarrow> point \<Rightarrow> nat" where
  "distOf distances v = (case distances v of Some (enat n) \<Rightarrow> n | _ \<Rightarrow> 0)"

definition dijkstraInv ::
  "grid \<Rightarrow> point \<Rightarrow> point \<Rightarrow> distances \<Rightarrow> (point \<rightharpoonup> point) \<Rightarrow> (point \<times> enat) list \<Rightarrow> point set \<Rightarrow>
   bool" where
  "dijkstraInv gr start endP distances parent priorityQueue visited \<longleftrightarrow>
     rowDefined start \<and> distances start = Some 0 \<and>
     (\<forall>v \<in> cells \<union> {start}. distances v \<noteq> None) \<and>
     visited \<union> fst ` set priorityQueue \<subseteq> cells \<union> {start} \<and>
     (\<forall>v. known distances v \<longrightarrow>
        (\<exists>ps. links parent v ps \<and> hd ps = start \<and> route gr ps \<and>
              length ps = Suc (distOf distances v) \<and> set (butlast ps) \<subseteq> visited)) \<and>
     (\<forall>v. known distances v \<and> v \<notin> visited \<longrightarrow>
        (v, enat (distOf distances v)) \<in> set priorityQueue) \<and>
     (\<forall>e \<in> set priorityQueue.
        known distances (fst e) \<and> enat (distOf distances (fst e)) \<le> snd e \<and>
        (\<forall>u \<in> visited. enat (distOf distances u) \<le> snd e)) \<and>
     (\<forall>u \<in> visited. u \<noteq> endP \<and> known distances u \<and>
        (\<forall>w \<in> set (nbrs gr u). known distances w \<and>
           distOf distances w \<le> Suc (distOf distances u)))"

text \<open>
  The invariant of runAStar. \<open>d\<close> gives every point of the closed set and of the open
  set the number of steps of its chain of \<open>cameFrom\<close>; for a node of the open set it is
  the node's \<open>g\<close>, and \<open>f = g + h\<close> once the start node has left the open set (the start
  node itself is created with \<open>f = 0\<close>). The positions of the open set are distinct and
  not closed. A closed point is not \<open>endP\<close>, no route from \<open>start\<close> reaches it in fewer
  steps than \<open>d\<close>, and its neighbors are closed or open and at most one step farther;
  inside the loop over the neighbors of \<open>cur\<close>, the neighbors \<open>todo\<close> are still to come.
\<close>

definition astarInv ::
  "grid \<Rightarrow> point \<Rightarrow> point \<Rightarrow> (point \<Rightarrow> nat) \<Rightarrow> node list \<Rightarrow> point set \<Rightarrow> (point \<rightharpoonup> point) \<Rightarrow>
   point \<Rightarrow> point set \<Rightarrow> bool" where
  "astarInv gr start endP d openSet closedSet cameFrom cur todo \<longleftrightarrow>
     distinct (map nodePos openSet) \<and> nodePos ` set openSet \<inter> closedSet = {} \<and>
     d start = 0 \<and> (start \<in> closedSet \<or> nodePos ` set openSet = {start}) \<and>
     (\<forall>v \<in> closedSet \<union> nodePos ` set openSet.
        \<exists>ps. links cameFrom v ps \<and> hd ps = start \<and> route gr ps \<and>
             length ps = Suc (d v) \<and> set (butlast ps) \<subseteq> closedSet) \<and>
     (\<forall>n \<in> set openSet.
        node_g n = int (d (nodePos n)) \<and>
        (start \<in> closedSet \<longrightarrow> node_f n = node_g n + heuristic (nodePos n) endP)) \<and>
     (\<forall>u \<in> closedSet. u \<noteq> endP \<and>
        (\<forall>q. route gr q \<and> hd q = start \<and> last q = u \<longrightarrow> d u < length q) \<and>
        (\<forall>w \<in> set (nbrs gr u).
           (u = cur \<and> w \<in> todo) \<or>
           (w \<in> closedSet \<union> nodePos ` set openSet \<and> d w \<le> Suc (d u))))"

text \<open>
  A grid of walls with two road cells apart from each other, \<open>(10, 8)\<close> and
  \<open>(20, 8)\<close>: two pockets with no route between them.
\<close>

definition pocketGrid :: grid where
  "pocketGrid = setRoad (setRoad (replicate GRID_ROWS (replicate GRID_COLS wallCell)) 8 10) 8 20"
section \<open>The generated grid\<close>

lemma asRoad_idem: "asRoad (asRoad c) = asRoad c"
  by (simp add: asRoad_def)

lemma carves_refl: "carves {} gr gr"
  by (simp add: carves_def)

lemma carves_trans: "carves S gr gr' \<Longrightarrow> carves T gr' gr'' \<Longrightarrow> carves (S \<union> T) gr gr''"
  by (auto simp: carves_def asRoad_idem)

lemma carves_setRoad: "carves {(x, y)} gr (setRoad gr y x)"
  by (auto simp: carves_def setRoad_def nth_list_update)

lemma carves_fold:
  assumes "\<And>a g. a \<in> set xs \<Longrightarrow> carves (S a) g (f a g)"
  shows "carves (\<Union>a \<in> set xs. S a) gr (fold f xs gr)"
  using assms
proof (induction xs arbitrary: gr)
  case Nil
  then show ?case by (simp add: carves_refl)
next
  case (Cons a xs)
  have "carves (S a) gr (f a gr)" using Cons.prems by simp
  moreover have "carves (\<Union>b \<in> set xs. S b) (f a gr) (fold f xs (f a gr))"
    using Cons.IH Cons.prems by simp
  ultimately have "carves (S a \<union> (\<Union>b \<in> set xs. S b)) gr (fold f xs (f a gr))"
    by (rule carves_trans)
  then show ?case by simp
qed

lemma carves_if: "carves (if b then {(x, y)} else {}) g (if b then setRoad g y x else g)"
  by (simp add: carves_refl carves_setRoad)

lemma steps_h: "stepsFrom 8 GRID_ROWS 12 = [8, 20, 32, 44, 56]"
  by (simp add: stepsFrom.simps GRID_ROWS_def)

lemma steps_v: "stepsFrom 8 GRID_COLS 16 = [8, 24, 40, 56, 72, 88, 104]"
  by (simp add: stepsFrom.simps GRID_COLS_def)

lemma steps_ch: "stepsFrom 4 GRID_ROWS 24 = [4, 28, 52]"
  by (simp add: stepsFrom.simps GRID_ROWS_def)

lemma steps_cv: "stepsFrom 4 GRID_COLS 32 = [4, 36, 68, 100]"
  by (simp add: stepsFrom.simps GRID_COLS_def)

lemma carves_mainHorizontal:
  "carves (\<Union>y \<in> set (stepsFrom 8 GRID_ROWS 12). \<Union>x \<in> set [0..<GRID_COLS]. \<Union>r \<in> set [0..<2].
             (if y + r < GRID_ROWS then {(x, y + r)} else {})) gr (mainHorizontal gr)"
  unfolding mainHorizontal_def
  by (intro carves_fold carves_if)

lemma carves_mainVertical:
  "carves (\<Union>x \<in> set (stepsFrom 8 GRID_COLS 16). \<Union>y \<in> set [0..<GRID_ROWS]. \<Union>r \<in> set [0..<2].
             (if x + r < GRID_COLS then {(x + r, y)} else {})) gr (mainVertical gr)"
  unfolding mainVertical_def
  by (intro carves_fold carves_if)

lemma carves_connectHorizontal:
  "carves (\<Union>y \<in> set (stepsFrom 4 GRID_ROWS 24). \<Union>x \<in> set [0..<GRID_COLS]. {(x, y)})
     gr (connectHorizontal gr)"
  unfolding connectHorizontal_def
  by (intro carves_fold carves_setRoad)

lemma carves_connectVertical:
  "carves (\<Union>x \<in> set (stepsFrom 4 GRID_COLS 32). \<Union>y \<in> set [0..<GRID_ROWS]. {(x, y)})
     gr (connectVertical gr)"
  unfolding connectVertical_def
  by (intro carves_fold carves_setRoad)

lemma carves_initializeCityGrid:
  "carves carvedCells (replicate GRID_ROWS (replicate GRID_COLS wallCell)) initializeCityGrid"
  unfolding initializeCityGrid_def carvedCells_def
  by (rule carves_trans [OF carves_trans [OF carves_trans
        [OF carves_mainHorizontal carves_mainVertical]
        carves_connectHorizontal] carves_connectVertical])

lemma two_steps: "set [0..<2] = {0, Suc 0}"
  by (auto simp: less_2_cases_iff)

lemma band_h_iff:
  "(x, y) \<in> (\<Union>y0 \<in> set ys. \<Union>x \<in> set [0..<C]. \<Union>r \<in> set [0..<2].
               (if y0 + r < R then {(x, y0 + r)} else {}))
    \<longleftrightarrow> x < C \<and> y < R \<and> (y \<in> set ys \<or> (\<exists>y0 \<in> set ys. y = Suc y0))"
proof -
  have "(x, y) \<in> (\<Union>y0 \<in> set ys. \<Union>x \<in> set [0..<C]. \<Union>r \<in> set [0..<2].
               (if y0 + r < R then {(x, y0 + r)} else {}))
     \<longleftrightarrow> x < C \<and> (\<exists>y0 \<in> set ys. (y0 < R \<and> y = y0) \<or> (Suc y0 < R \<and> y = Suc y0))"
    unfolding two_steps by (simp add: Bex_def) (auto split: if_splits)
  also have "\<dots> \<longleftrightarrow> x < C \<and> y < R \<and> (y \<in> set ys \<or> (\<exists>y0 \<in> set ys. y = Suc y0))"
    by blast
  finally show ?thesis .
qed

lemma band_v_iff:
  "(x, y) \<in> (\<Union>x0 \<in> set xs. \<Union>y \<in> set [0..<R]. \<Union>r \<in> set [0..<2].
               (if x0 + r < C then {(x0 + r, y)} else {}))
    \<longleftrightarrow> x < C \<and> y < R \<and> (x \<in> set xs \<or> (\<exists>x0 \<in> set xs. x = Suc x0))"
proof -
  have "(x, y) \<in> (\<Union>x0 \<in> set xs. \<Union>y \<in> set [0..<R]. \<Union>r \<in> set [0..<2].
               (if x0 + r < C then {(x0 + r, y)} else {}))
     \<longleftrightarrow> y < R \<and> (\<exists>x0 \<in> set xs. (x0 < C \<and> x = x0) \<or> (Suc x0 < C \<and> x = Suc x0))"
    unfolding two_steps by (simp add: Bex_def) (auto split: if_splits)
  also have "\<dots> \<longleftrightarrow> x < C \<and> y < R \<and> (x \<in> set xs \<or> (\<exists>x0 \<in> set xs. x = Suc x0))"
    by blast
  finally show ?thesis .
qed

lemma line_h_iff:
  "(x, y) \<in> (\<Union>y0 \<in> set ys. \<Union>x \<in> set [0..<C]. {(x, y0)}) \<longleftrightarrow> x < C \<and> y \<in> set ys"
  by auto

lemma line_v_iff:
  "(x, y) \<in> (\<Union>x0 \<in> set xs. \<Union>y \<in> set [0..<R]. {(x0, y)}) \<longleftrightarrow> y < R \<and> x \<in> set xs"
  by auto

lemma carvedCells_iff:
  assumes "x < GRID_COLS" "y < GRID_ROWS"
  shows "(x, y) \<in> carvedCells \<longleftrightarrow>
          y \<in> {8, 9, 20, 21, 32, 33, 44, 45, 56, 57} \<or>
          x \<in> {8, 9, 24, 25, 40, 41, 56, 57, 72, 73, 88, 89, 104, 105} \<or>
          y \<in> {4, 28, 52} \<or> x \<in> {4, 36, 68, 100}"
  unfolding carvedCells_def Un_iff band_h_iff band_v_iff line_h_iff line_v_iff
    steps_h steps_v steps_ch steps_cv
  using assms by simp blast

lemma rows_mod_12:
  "list_all (\<lambda>y. (y mod 12 = 8 \<or> y mod 12 = 9) \<longleftrightarrow>
      y \<in> set [8, 9, 20, 21, 32, 33, 44, 45, 56, 57]) [0..<60]"
  by code_simp

lemma cols_mod_16:
  "list_all (\<lambda>x. (x mod 16 = 8 \<or> x mod 16 = 9) \<longleftrightarrow>
      x \<in> set [8, 9, 24, 25, 40, 41, 56, 57, 72, 73, 88, 89, 104, 105]) [0..<120]"
  by code_simp

lemma carvedCells_rule:
  assumes "x < GRID_COLS" "y < GRID_ROWS"
  shows "(x, y) \<in> carvedCells \<longleftrightarrow> carvingRule x y"
proof -
  have "y mod 12 = 8 \<or> y mod 12 = 9 \<longleftrightarrow> y \<in> {8, 9, 20, 21, 32, 33, 44, 45, 56, 57}"
    using assms(2) rows_mod_12 unfolding GRID_ROWS_def by (simp add: list_all_iff)
  moreover have "x mod 16 = 8 \<or> x mod 16 = 9 \<longleftrightarrow>
      x \<in> {8, 9, 24, 25, 40, 41, 56, 57, 72, 73, 88, 89, 104, 105}"
    using assms(1) cols_mod_16 unfolding GRID_COLS_def by (simp add: list_all_iff)
  ultimately show ?thesis
    unfolding carvedCells_iff [OF assms] carvingRule_def by blast
qed

lemma initializeCityGrid_nth:
  assumes "x < GRID_COLS" "y < GRID_ROWS"
  shows "initializeCityGrid ! y ! x = (if carvingRule x y then asRoad wallCell else wallCell)"
  using carves_initializeCityGrid assms carvedCells_rule [OF assms]
  by (simp add: carves_def)

lemma wf_initializeCityGrid: "wf_grid initializeCityGrid"
  using carves_initializeCityGrid
  by (auto simp: carves_def wf_grid_def in_set_conv_nth)

text \<open>
  C4. \<open>initializeCityGrid\<close> takes no argument and draws no random number: the model is
  a constant, so every call yields the same grid. It has \<open>GRID_ROWS\<close> rows of
  \<open>GRID_COLS\<close> cells, and the cell at column \<open>x\<close> and row \<open>y\<close> is a road
  (\<open>isRoad\<close> true, \<open>isWall\<close> false) exactly when the carving rule covers it, and a
  wall (\<open>isWall\<close> true, \<open>isRoad\<close> false) otherwise; no cell is both or neither.
\<close>

theorem initializeCityGrid_roads:
  "wf_grid initializeCityGrid \<and>
   (\<forall>x < GRID_COLS. \<forall>y < GRID_ROWS.
      initializeCityGrid ! y ! x =
        \<lparr>isWall = \<not> carvingRule x y, isRoad = carvingRule x y, isVisited = False,
         isPath = False, hasCar = False, carId = None\<rparr>)"
  by (simp add: wf_initializeCityGrid initializeCityGrid_nth asRoad_def wallCell_def)

theorem initializeCityGrid_roads_witness:
  "initializeCityGrid ! 8 ! 10 =
     \<lparr>isWall = False, isRoad = True, isVisited = False, isPath = False, hasCar = False,
      carId = None\<rparr> \<and>
   initializeCityGrid ! 0 ! 0 =
     \<lparr>isWall = True, isRoad = False, isVisited = False, isPath = False, hasCar = False,
      carId = None\<rparr> \<and>
   length initializeCityGrid = 60"
  using initializeCityGrid_roads
  by (simp add: GRID_ROWS_def GRID_COLS_def carvingRule_def wf_grid_def)

lemma cellAt_wf:
  "wf_grid gr \<Longrightarrow> x < GRID_COLS \<Longrightarrow> y < GRID_ROWS \<Longrightarrow> cellAt gr x y = Some (gr ! y ! x)"
  by (simp add: cellAt_def wf_grid_def)

lemma cellAt_initializeCityGrid:
  "x < GRID_COLS \<Longrightarrow> y < GRID_ROWS \<Longrightarrow>
   cellAt initializeCityGrid x y = Some (if carvingRule x y then asRoad wallCell else wallCell)"
  by (simp add: cellAt_wf wf_initializeCityGrid initializeCityGrid_nth)

text \<open>
  C2. Order of the neighbors. At the crossing \<open>(8, 8)\<close> of the generated grid all four
  neighbors are roads, and \<open>getNeighbors\<close> lists them as South \<open>(8, 9)\<close>, East
  \<open>(9, 8)\<close>, North \<open>(8, 7)\<close>, West \<open>(7, 8)\<close>: the entries of \<open>directions\<close> are read
  as \<open>[dx, dy]\<close>, so \<open>[0, 1]\<close> is a step in \<open>y\<close>. The comment of the source
  (\<open>right, down, left, up\<close>) and the documented order are East, South, West, North.
\<close>

theorem getNeighbors_order:
  "getNeighbors (8, 8) initializeCityGrid = Inr [(8, 9), (9, 8), (8, 7), (7, 8)]"
  by (simp add: getNeighbors_def directions_def cellAt_initializeCityGrid
        GRID_ROWS_def GRID_COLS_def carvingRule_def asRoad_def wallCell_def)

section \<open>Selecting points by clicks\<close>

lemma cellAt_cells:
  "wf_grid gr \<Longrightarrow> (cx, cy) \<in> cells \<Longrightarrow> cellAt gr (nat cx) (nat cy) = Some (gr ! nat cy ! nat cx)"
  by (rule cellAt_wf) (auto simp: cells_def)


lemma occupied_iff: "occupied cars cx cy \<longleftrightarrow> (\<exists>c \<in> set cars. carCell c = (cx, cy))"
  by (auto simp: occupied_def list_ex_iff carCell_def)

text \<open>
  C9. A click on a cell \<open>(cx, cy)\<close> of the grid leaves start, end and current path as
  they are when the cell is a wall or some car's floored position is the cell.
  Otherwise the first click (no start yet) sets the start, the second (no end yet) sets
  the end, and a click with both set makes the clicked cell the start, clears the end
  and clears the current path.
\<close>

theorem handleCanvasClick_selection:
  assumes "wf_grid gr"
    and "cx = \<lfloor>offsetX / real CELL_SIZE\<rfloor>" and "cy = \<lfloor>offsetY / real CELL_SIZE\<rfloor>"
    and "(cx, cy) \<in> cells"
  shows "handleCanvasClick gr cars s offsetX offsetY =
     (if isWall (gr ! nat cy ! nat cx) \<or> (\<exists>c \<in> set cars. carCell c = (cx, cy)) then s
      else if startPoint s = None then s\<lparr>startPoint := Some (cx, cy)\<rparr>
      else if endPoint s = None then s\<lparr>endPoint := Some (cx, cy)\<rparr>
      else s\<lparr>startPoint := Some (cx, cy), endPoint := None, currentPath := []\<rparr>)"
proof -
  have inb: "\<not> (cx < 0 \<or> cx \<ge> int GRID_COLS \<or> cy < 0 \<or> cy \<ge> int GRID_ROWS)"
    using assms(4) by (auto simp: cells_def)
  show ?thesis
    unfolding handleCanvasClick_def Let_def assms(2,3)[symmetric]
    using inb cellAt_cells [OF assms(1,4)] by (simp add: occupied_iff)
qed

theorem handleCanvasClick_selection_witness:
  "handleCanvasClick initializeCityGrid [] \<lparr>startPoint = None, endPoint = None, currentPath = []\<rparr> 84 68
     = \<lparr>startPoint = Some (10, 8), endPoint = None, currentPath = []\<rparr> \<and>
   handleCanvasClick initializeCityGrid []
       \<lparr>startPoint = Some (10, 8), endPoint = Some (11, 8), currentPath = [(10, 8), (11, 8)]\<rparr> 84 76
     = \<lparr>startPoint = Some (10, 9), endPoint = None, currentPath = []\<rparr> \<and>
   handleCanvasClick initializeCityGrid []
       \<lparr>startPoint = Some (10, 8), endPoint = None, currentPath = []\<rparr> 3 3
     = \<lparr>startPoint = Some (10, 8), endPoint = None, currentPath = []\<rparr>"
proof -
  have f1: "\<lfloor>(84::real) / real CELL_SIZE\<rfloor> = 10" "\<lfloor>(68::real) / real CELL_SIZE\<rfloor> = 8"
    "\<lfloor>(76::real) / real CELL_SIZE\<rfloor> = 9" "\<lfloor>(3::real) / real CELL_SIZE\<rfloor> = 0"
    by (simp_all add: CELL_SIZE_def)
  have c: "(10, 8) \<in> cells" "(10, 9) \<in> cells" "(0, 0) \<in> cells"
    by (simp_all add: cells_def GRID_ROWS_def GRID_COLS_def)
  have g: "\<not> isWall (initializeCityGrid ! 8 ! 10)" "\<not> isWall (initializeCityGrid ! 9 ! 10)"
    "isWall (initializeCityGrid ! 0 ! 0)"
    by (simp_all add: initializeCityGrid_nth GRID_ROWS_def GRID_COLS_def carvingRule_def
          asRoad_def wallCell_def)
  show ?thesis
    using handleCanvasClick_selection [OF wf_initializeCityGrid f1(1)[symmetric] f1(2)[symmetric] c(1),
            of "[]" "\<lparr>startPoint = None, endPoint = None, currentPath = []\<rparr>"]
      handleCanvasClick_selection [OF wf_initializeCityGrid f1(1)[symmetric] f1(3)[symmetric] c(2),
            of "[]" "\<lparr>startPoint = Some (10, 8), endPoint = Some (11, 8), currentPath = [(10, 8), (11, 8)]\<rparr>"]
      handleCanvasClick_selection [OF wf_initializeCityGrid f1(4)[symmetric] f1(4)[symmetric] c(3),
            of "[]" "\<lparr>startPoint = Some (10, 8), endPoint = None, currentPath = []\<rparr>"]
      g by simp
qed

section \<open>The tick of the cars\<close>

lemma length_carDirections: "length carDirections = 4"
  by (simp add: carDirections_def)

text \<open>The four outcomes of the update of one car.\<close>

lemma moveCar_cases:
  assumes "direction c < 4"
  shows "moveCar gr prevCars random c k =
     (if \<not> candidateFree gr c
      then Inr (c\<lparr>direction := nat \<lfloor>random k * 4\<rfloor>, stuckTime := 0\<rparr>, k + 1)
      else if collides prevCars c (fst (candidate c)) (snd (candidate c))
      then
        if stuckTime c > 20
        then Inr (c\<lparr>direction := (direction c + 1 + nat \<lfloor>random k * 2\<rfloor>) mod 4,
                     stuckTime := 0\<rparr>, k + 1)
        else Inr (c\<lparr>stuckTime := stuckTime c + 1\<rparr>, k)
      else if random k < 0.001
      then Inr (c\<lparr>direction := nat \<lfloor>random (k + 1) * 4\<rfloor>, car_x := fst (candidate c),
                   car_y := snd (candidate c), stuckTime := 0\<rparr>, k + 2)
      else Inr (c\<lparr>car_x := fst (candidate c), car_y := snd (candidate c), stuckTime := 0\<rparr>,
                k + 1))"
proof -
  have "candidateFree gr c \<longleftrightarrow>
     \<not> (\<lfloor>fst (candidate c)\<rfloor> < 0 \<or> \<lfloor>fst (candidate c)\<rfloor> \<ge> int GRID_COLS \<or>
        \<lfloor>snd (candidate c)\<rfloor> < 0 \<or> \<lfloor>snd (candidate c)\<rfloor> \<ge> int GRID_ROWS \<or>
        wallAt gr \<lfloor>fst (candidate c)\<rfloor> \<lfloor>snd (candidate c)\<rfloor>)"
    by (auto simp: candidateFree_def cells_def)
  then show ?thesis
    using assms unfolding moveCar_def Let_def length_carDirections
    by (simp add: candidate_def)
qed

lemma moveCar_frame:
  assumes "direction c < 4"
  shows "\<exists>c' k'. moveCar gr prevCars random c k = Inr (c', k') \<and>
           car_id c' = car_id c \<and> color c' = color c \<and> speed c' = speed c"
  unfolding moveCar_cases [OF assms] by simp



lemma mapCars_nth:
  assumes "\<forall>c \<in> set cs. direction c < 4"
  shows "\<exists>out k'. mapCars gr prevCars random cs k = Inr (out, k') \<and> length out = length cs \<and>
           (\<forall>i < length cs. \<exists>j j'. moveCar gr prevCars random (cs ! i) j = Inr (out ! i, j'))"
  using assms
proof (induction cs arbitrary: k)
  case Nil
  then show ?case by simp
next
  case (Cons c cs)
  obtain c' k1 where m: "moveCar gr prevCars random c k = Inr (c', k1)"
    using moveCar_frame [of c gr prevCars random k] Cons.prems by auto
  obtain out k2 where r: "mapCars gr prevCars random cs k1 = Inr (out, k2)"
    "length out = length cs"
    "\<forall>i < length cs. \<exists>j j'. moveCar gr prevCars random (cs ! i) j = Inr (out ! i, j')"
    using Cons.IH [of k1] Cons.prems by auto
  have "\<exists>j j'. moveCar gr prevCars random ((c # cs) ! i) j = Inr ((c' # out) ! i, j')"
    if "i < length (c # cs)" for i
    using that m r(3) by (cases i) auto
  then show ?case using m r(1,2) by simp
qed

text \<open>
  C10. Frame of the tick. For every list of cars whose directions are among the four,
  \<open>moveCars\<close> returns a list of the same length, and the car at each index keeps its
  \<open>id\<close>, \<open>color\<close> and \<open>speed\<close>; only \<open>x\<close>, \<open>y\<close>, \<open>direction\<close> and \<open>stuckTime\<close> may
  change. The grid is an argument that \<open>moveCars\<close> reads and does not return.
\<close>

theorem moveCars_frame:
  assumes "\<forall>c \<in> set cars. direction c < 4"
  shows "\<exists>out k'. moveCars gr cars random k = Inr (out, k') \<and> length out = length cars \<and>
           (\<forall>i < length cars. car_id (out ! i) = car_id (cars ! i) \<and>
              color (out ! i) = color (cars ! i) \<and> speed (out ! i) = speed (cars ! i))"
proof -
  obtain out k' where r: "mapCars gr cars random cars k = Inr (out, k')"
    "length out = length cars"
    "\<forall>i < length cars. \<exists>j j'. moveCar gr cars random (cars ! i) j = Inr (out ! i, j')"
    using mapCars_nth [OF assms] by blast
  have "car_id (out ! i) = car_id (cars ! i) \<and> color (out ! i) = color (cars ! i) \<and>
        speed (out ! i) = speed (cars ! i)" if i: "i < length cars" for i
  proof -
    obtain j j' where "moveCar gr cars random (cars ! i) j = Inr (out ! i, j')"
      using r(3) i by blast
    moreover have "direction (cars ! i) < 4" using assms i by simp
    ultimately show ?thesis
      using moveCar_frame [of "cars ! i" gr cars random j] by auto
  qed
  then show ?thesis using r(1,2) by (simp add: moveCars_def)
qed









lemmas demoCar_defs = waitingCar_def stuckCar_def freeCar_def facingWallCar_def

lemma demo_hyps:
  "\<forall>c \<in> set demoCars. direction c < 4" "distinct (map car_id demoCars)"
  "\<forall>n. 0 \<le> (1/2::real) \<and> (1/2::real) < 1" "length demoCars = 4"
  by (simp_all add: demoCars_def demoCar_defs)

lemma demo_nth:
  "demoCars ! 0 = waitingCar" "demoCars ! 1 = stuckCar" "demoCars ! 2 = freeCar"
  "demoCars ! 3 = facingWallCar"
  by (simp_all add: demoCars_def)








theorem moveCars_frame_witness:
  "\<exists>out k'. moveCars initializeCityGrid demoCars (\<lambda>n. 1/2) 0 = Inr (out, k') \<and>
     length out = 4 \<and> car_id (out ! 0) = 0 \<and> car_id (out ! 3) = 3 \<and> speed (out ! 2) = 1/4 \<and>
     color (out ! 3) = ''#96CEB4''"
proof -
  obtain out k' where o: "moveCars initializeCityGrid demoCars (\<lambda>n. 1/2) 0 = Inr (out, k')"
    "length out = length demoCars"
    "\<forall>i < length demoCars. car_id (out ! i) = car_id (demoCars ! i) \<and>
        color (out ! i) = color (demoCars ! i) \<and> speed (out ! i) = speed (demoCars ! i)"
    using moveCars_frame [OF demo_hyps(1)] by blast
  have l: "length out = 4" using o(2) demo_hyps(4) by simp
  have "car_id (out ! 0) = 0" "car_id (out ! 3) = 3" "speed (out ! 2) = 1/4"
    "color (out ! 3) = ''#96CEB4''"
    using o(3) [rule_format, of 0] o(3) [rule_format, of 2] o(3) [rule_format, of 3]
    unfolding demo_hyps(4) demo_nth by (simp_all add: demoCar_defs)
  then show ?thesis using o(1) l by blast
qed



section \<open>Neighbors, routes and parent links\<close>

lemma neighborsLoop_wf:
  assumes "wf_grid gr"
  shows "neighborsLoop node gr ds acc0 =
           Inr (acc0 @ filter (traversable gr) (map (\<lambda>(dx, dy). (fst node + dx, snd node + dy)) ds))"
proof (induction ds arbitrary: acc0)
  case Nil
  then show ?case by simp
next
  case (Cons d ds)
  obtain dx dy where d: "d = (dx, dy)" by (cases d)
  let ?p = "(fst node + dx, snd node + dy)"
  show ?case
  proof (cases "?p \<in> cells")
    case True
    then have b: "fst node + dx \<ge> 0 \<and> fst node + dx < int GRID_COLS \<and> snd node + dy \<ge> 0 \<and>
                  snd node + dy < int GRID_ROWS"
      by (auto simp: cells_def)
    have c: "cellAt gr (nat (fst node + dx)) (nat (snd node + dy))
               = Some (gr ! nat (snd node + dy) ! nat (fst node + dx))"
      using cellAt_cells [OF assms True] .
    have "neighborsLoop node gr (d # ds) acc0 =
            (if traversable gr ?p then neighborsLoop node gr ds (acc0 @ [?p])
             else neighborsLoop node gr ds acc0)"
      using b c True by (simp add: d Let_def traversable_def)
    then show ?thesis
      using Cons.IH by (simp add: d)
  next
    case False
    then have "neighborsLoop node gr (d # ds) acc0 = neighborsLoop node gr ds acc0"
      by (auto simp: d Let_def cells_def)
    moreover have "\<not> traversable gr ?p" using False by (simp add: traversable_def)
    ultimately show ?thesis
      using Cons.IH by (simp add: d)
  qed
qed

lemma getNeighbors_wf:
  assumes "wf_grid gr"
  shows "getNeighbors node gr =
           Inr (filter (traversable gr)
                  [(fst node, snd node + 1), (fst node + 1, snd node),
                   (fst node, snd node - 1), (fst node - 1, snd node)])"
  unfolding getNeighbors_def neighborsLoop_wf [OF assms] by (simp add: directions_def)

lemma getNeighbors_nbrs: "wf_grid gr \<Longrightarrow> getNeighbors node gr = Inr (nbrs gr node)"
  by (simp add: nbrs_def getNeighbors_wf)

lemma nbrs_wf:
  "wf_grid gr \<Longrightarrow> nbrs gr node =
     filter (traversable gr)
       [(fst node, snd node + 1), (fst node + 1, snd node),
        (fst node, snd node - 1), (fst node - 1, snd node)]"
  by (simp add: nbrs_def getNeighbors_wf)

lemma distinct_nbrs: "wf_grid gr \<Longrightarrow> distinct (nbrs gr node)"
  by (simp add: nbrs_wf)

lemma nbrs_cells: "set (nbrs gr node) \<subseteq> cells"
proof (cases "getNeighbors node gr")
  case (Inl e)
  then show ?thesis by (simp add: nbrs_def)
next
  case (Inr ns)
  then show ?thesis using getNeighbors_cells [OF Inr] by (simp add: nbrs_def)
qed

lemma reconstructPath_links:
  "links parent v ps \<Longrightarrow> reconstructPath parent (Some v) built = Some (ps @ built)"
proof (induction arbitrary: built rule: links.induct)
  case (root parent v)
  then show ?case by (simp add: reconstructPath.simps [of parent "Some v"] reconstructPath.simps [of parent None])
next
  case (step parent v u ps)
  then show ?case by (simp add: reconstructPath.simps [of parent "Some v"])
qed

lemma returnPath_links:
  "links parent v ps \<Longrightarrow> returnPath parent v n = Returned \<lparr>path = ps, exploredCount = n\<rparr>"
  by (simp add: returnPath_def reconstructPath_links)

lemma links_last: "links parent v ps \<Longrightarrow> ps \<noteq> [] \<and> last ps = v"
  by (induction rule: links.induct) auto

lemma links_upd:
  "links parent v ps \<Longrightarrow> n \<notin> set ps \<Longrightarrow> links (parent(n \<mapsto> c)) v ps"
proof (induction rule: links.induct)
  case (root parent v)
  then show ?case by (simp add: links.root)
next
  case (step parent v u ps)
  then show ?case by (auto intro: links.step)
qed

lemma route_snoc:
  "route gr ps \<Longrightarrow> w \<in> set (nbrs gr (last ps)) \<Longrightarrow> route gr (ps @ [w])"
  by (induction gr ps rule: route.induct) auto


lemma route_butlast:
  "route gr (ps @ [w]) \<Longrightarrow> ps \<noteq> [] \<Longrightarrow> route gr ps \<and> w \<in> set (nbrs gr (last ps))"
  by (induction gr ps rule: route.induct) auto

text \<open>The loop over the neighbors of runDFS and runBFS, in closed form.\<close>

lemma visitNeighbors_closed:
  assumes "distinct ns"
  shows "visitNeighbors current ns (frontier, visited, parent) =
     (frontier @ filter (\<lambda>n. n \<notin> visited) ns, visited \<union> set ns,
      (\<lambda>v. if v \<in> set ns \<and> v \<notin> visited then Some current else parent v))"
  using assms
proof (induction ns arbitrary: frontier visited parent)
  case Nil
  then show ?case by simp
next
  case (Cons n ns)
  then have d: "distinct ns" "n \<notin> set ns" by simp_all
  show ?case
  proof (cases "n \<in> visited")
    case True
    then show ?thesis using Cons.IH [OF d(1)] by (auto simp: fun_eq_iff)
  next
    case False
    have f: "filter (\<lambda>m. m \<noteq> n \<and> m \<notin> visited) ns = filter (\<lambda>m. m \<notin> visited) ns"
      using d(2) by (intro filter_cong) auto
    show ?thesis using False d(2) Cons.IH [OF d(1)] by (auto simp: fun_eq_iff f)
  qed
qed

text \<open>
  C3. With \<open>start = end = p\<close> every search returns the path \<open>[p]\<close> at once. runBFS,
  runDFS and runDijkstra (on a point whose row exists) count the node they took from
  the frontier before they test it, and return \<open>exploredCount = 1\<close>; runAStar tests the
  node before it counts it, and returns \<open>exploredCount = 0\<close>.
\<close>

theorem same_start_end:
  "runAStar gr p p = Returned \<lparr>path = [p], exploredCount = 0\<rparr> \<and>
   runBFS gr p p = Returned \<lparr>path = [p], exploredCount = 1\<rparr> \<and>
   runDFS gr p p = Returned \<lparr>path = [p], exploredCount = 1\<rparr> \<and>
   runDijkstra gr p p =
     (if rowDefined p then Returned \<lparr>path = [p], exploredCount = 1\<rparr> else Thrown TypeError)"
proof -
  have l: "links Map.empty p [p]" by (rule links.root) simp
  have "runAStar gr p p = Returned \<lparr>path = [p], exploredCount = 0\<rparr>"
    by (simp add: runAStar_def astarLoop.simps nodePos_def returnPath_links [OF l])
  moreover have "runBFS gr p p = Returned \<lparr>path = [p], exploredCount = 1\<rparr>"
    by (simp add: runBFS_def bfsLoop.simps returnPath_links [OF l])
  moreover have "runDFS gr p p = Returned \<lparr>path = [p], exploredCount = 1\<rparr>"
    by (simp add: runDFS_def dfsLoop.simps returnPath_links [OF l])
  moreover have "runDijkstra gr p p =
     (if rowDefined p then Returned \<lparr>path = [p], exploredCount = 1\<rparr> else Thrown TypeError)"
    by (simp add: runDijkstra_def dijkstraLoop.simps returnPath_links [OF l])
  ultimately show ?thesis by blast
qed

section \<open>The invariant of runDFS and runBFS\<close>

lemma links_cong:
  "links parent v ps \<Longrightarrow> (\<forall>x \<in> set ps. parent' x = parent x) \<Longrightarrow> links parent' v ps"
proof (induction rule: links.induct)
  case (root parent v)
  then show ?case by (simp add: links.root)
next
  case (step parent v u ps)
  then show ?case by (auto intro: links.step)
qed

text \<open>A route that starts inside a set closed under \<open>nbrs\<close> stays inside.\<close>

lemma route_closed:
  assumes "\<forall>u \<in> V. set (nbrs gr u) \<subseteq> V"
  shows "route gr q \<Longrightarrow> hd q \<in> V \<Longrightarrow> set q \<subseteq> V"
proof (induction q)
  case Nil
  then show ?case by simp
next
  case (Cons a q)
  show ?case
  proof (cases q)
    case Nil
    then show ?thesis using Cons.prems by simp
  next
    case (Cons b ps)
    have a: "a \<in> V" using Cons.prems(2) by simp
    have r: "b \<in> set (nbrs gr a)" "route gr q" using Cons.prems(1) Cons by simp_all
    have "b \<in> V" using assms a r(1) by blast
    then have "set q \<subseteq> V" using Cons.IH r(2) Cons by simp
    then show ?thesis using a by simp
  qed
qed

text \<open>
  A lower bound on the length of every route from \<open>start\<close>, from labels \<open>d\<close> that grow by
  at most one along the edges that leave a set \<open>E\<close> of finished points, when the other
  labelled points have labels of at least \<open>K\<close>.
\<close>

lemma label_lower_bound:
  assumes "start \<in> V" and "d start = 0" and "E \<subseteq> V"
    and "\<forall>u \<in> E. \<forall>w \<in> set (nbrs gr u). w \<in> V \<and> d w \<le> Suc (d u)"
    and "\<forall>v \<in> V - E. K \<le> d v"
  shows "route gr q \<Longrightarrow> hd q = start \<Longrightarrow> (last q \<in> V \<and> d (last q) < length q) \<or> K < length q"
proof (induction q rule: rev_induct)
  case Nil
  then show ?case by simp
next
  case (snoc w q)
  show ?case
  proof (cases "q = []")
    case True
    then show ?thesis using snoc.prems assms(1,2) by simp
  next
    case False
    have r: "route gr q" "w \<in> set (nbrs gr (last q))"
      using route_butlast [OF snoc.prems(1) False] by simp_all
    have h: "hd q = start" using snoc.prems(2) False by simp
    from snoc.IH [OF r(1) h] show ?thesis
    proof
      assume a: "last q \<in> V \<and> d (last q) < length q"
      show ?thesis
      proof (cases "last q \<in> E")
        case True
        then have "w \<in> V \<and> d w \<le> Suc (d (last q))" using assms(4) r(2) by blast
        then show ?thesis using a by simp
      next
        case False
        then have "K \<le> d (last q)" using assms(5) a by blast
        then show ?thesis using a by simp
      qed
    next
      assume "K < length q"
      then show ?thesis by simp
    qed
  qed
qed

lemma treeInv_start:
  "treeInv gr start endP d frontier visited parent \<Longrightarrow>
   start \<in> visited \<and> d start = 0 \<and> set frontier \<subseteq> visited"
  unfolding treeInv_def by (elim conjE) (intro conjI)

lemma treeInv_chain:
  "treeInv gr start endP d frontier visited parent \<Longrightarrow> v \<in> visited \<Longrightarrow>
   \<exists>ps. links parent v ps \<and> hd ps = start \<and> route gr ps \<and> set ps \<subseteq> visited \<and>
        length ps = Suc (d v)"
  unfolding treeInv_def by (elim conjE) (erule bspec)

lemma treeInv_done:
  "treeInv gr start endP d frontier visited parent \<Longrightarrow> u \<in> visited \<Longrightarrow> u \<notin> set frontier \<Longrightarrow>
   u \<noteq> endP \<and> set (nbrs gr u) \<subseteq> visited"
  unfolding treeInv_def by (elim conjE) (erule bspec, simp)

lemma treeInvI:
  assumes "start \<in> visited" and "d start = 0" and "set frontier \<subseteq> visited"
    and "\<And>v. v \<in> visited \<Longrightarrow>
           \<exists>ps. links parent v ps \<and> hd ps = start \<and> route gr ps \<and> set ps \<subseteq> visited \<and>
                length ps = Suc (d v)"
    and "\<And>u. u \<in> visited \<Longrightarrow> u \<notin> set frontier \<Longrightarrow> u \<noteq> endP \<and> set (nbrs gr u) \<subseteq> visited"
  shows "treeInv gr start endP d frontier visited parent"
  unfolding treeInv_def using assms by (intro conjI ballI) simp_all

lemma treeInv_exhausted:
  assumes "treeInv gr start endP d [] visited parent"
  shows "\<not> routeBetween gr start endP q"
proof
  assume q: "routeBetween gr start endP q"
  have c: "\<forall>u \<in> visited. set (nbrs gr u) \<subseteq> visited"
    using treeInv_done [OF assms] by simp
  have s: "start \<in> visited" using treeInv_start [OF assms] by simp
  have r: "route gr q" "hd q = start" "last q = endP" using q by (simp_all add: routeBetween_def)
  have "set q \<subseteq> visited"
    using route_closed [OF c r(1)] r(2) s by simp
  moreover have "q \<noteq> []" using r(1) by auto
  ultimately have "endP \<in> visited" using r(3) last_in_set [of q] by auto
  then show False using treeInv_done [OF assms, of endP] by simp
qed

lemma treeInv_found:
  assumes "treeInv gr start endP d frontier visited parent" and "v \<in> visited"
  shows "\<exists>ps. returnPath parent v n = Returned \<lparr>path = ps, exploredCount = n\<rparr> \<and>
               routeBetween gr start v ps \<and> length ps = Suc (d v)"
proof -
  obtain ps where ps: "links parent v ps" "hd ps = start" "route gr ps" "length ps = Suc (d v)"
    using treeInv_chain [OF assms] by blast
  have "last ps = v" using links_last [OF ps(1)] by simp
  then have "routeBetween gr start v ps" using ps by (simp add: routeBetween_def)
  then show ?thesis
    using ps(4) returnPath_links [OF ps(1), of n] by blast
qed

text \<open>Taking \<open>u\<close> from the frontier and visiting its neighbors keeps the invariant.\<close>

lemma treeInv_expand:
  assumes inv: "treeInv gr start endP d frontier visited parent"
    and u: "u \<in> set frontier" "u \<noteq> endP"
    and rest: "set frontier \<subseteq> insert u (set rest)" "set rest \<subseteq> set frontier"
  defines "ns \<equiv> nbrs gr u"
  defines "d' \<equiv> (\<lambda>v. if v \<in> set ns \<and> v \<notin> visited then Suc (d u) else d v)"
  defines "parent' \<equiv> (\<lambda>v. if v \<in> set ns \<and> v \<notin> visited then Some u else parent v)"
  shows "treeInv gr start endP d' (rest @ filter (\<lambda>n. n \<notin> visited) ns) (visited \<union> set ns) parent'"
proof (rule treeInvI)
  note sv = treeInv_start [OF inv]
  have uv: "u \<in> visited" using sv u(1) by blast
  show "start \<in> visited \<union> set ns" using sv by simp
  show "d' start = 0" using sv by (simp add: d'_def)
  show "set (rest @ filter (\<lambda>n. n \<notin> visited) ns) \<subseteq> visited \<union> set ns"
    using sv rest(2) by auto
  have old: "\<exists>ps. links parent' v ps \<and> hd ps = start \<and> route gr ps \<and>
                  set ps \<subseteq> visited \<and> length ps = Suc (d v)" if v: "v \<in> visited" for v
  proof -
    obtain ps where ps: "links parent v ps" "hd ps = start" "route gr ps" "set ps \<subseteq> visited"
      "length ps = Suc (d v)"
      using treeInv_chain [OF inv v] by blast
    have "\<forall>x \<in> set ps. parent' x = parent x" using ps(4) by (auto simp: parent'_def)
    then have "links parent' v ps" by (rule links_cong [OF ps(1)])
    then show ?thesis using ps by blast
  qed
  show "\<exists>ps. links parent' v ps \<and> hd ps = start \<and> route gr ps \<and>
                  set ps \<subseteq> visited \<union> set ns \<and> length ps = Suc (d' v)"
    if v: "v \<in> visited \<union> set ns" for v
  proof (cases "v \<in> visited")
    case True
    obtain ps where ps: "links parent' v ps" "hd ps = start" "route gr ps" "set ps \<subseteq> visited"
      "length ps = Suc (d v)"
      using old [OF True] by blast
    have "set ps \<subseteq> visited \<union> set ns" using ps(4) by blast
    moreover have "length ps = Suc (d' v)" using ps(5) True by (simp add: d'_def)
    ultimately show ?thesis using ps(1,2,3) by blast
  next
    case False
    then have vn: "v \<in> set ns" using v by simp
    obtain ps where ps: "links parent' u ps" "hd ps = start" "route gr ps" "set ps \<subseteq> visited"
      "length ps = Suc (d u)"
      using old [OF uv] by blast
    have l: "ps \<noteq> []" "last ps = u" using links_last [OF ps(1)] by simp_all
    have p: "parent' v = Some u" using vn False by (simp add: parent'_def)
    have "links parent' v (ps @ [v])" by (rule links.step [OF p ps(1)])
    moreover have "v \<in> set (nbrs gr (last ps))" using l vn by (simp add: ns_def)
    then have "route gr (ps @ [v])" by (rule route_snoc [OF ps(3)])
    moreover have "hd (ps @ [v]) = start" using ps(2) l(1) by simp
    moreover have "set (ps @ [v]) \<subseteq> visited \<union> set ns" using ps(4) vn by auto
    moreover have "length (ps @ [v]) = Suc (d' v)" using ps(5) vn False by (simp add: d'_def)
    ultimately show ?thesis by blast
  qed
  show "x \<noteq> endP \<and> set (nbrs gr x) \<subseteq> visited \<union> set ns"
    if x: "x \<in> visited \<union> set ns" "x \<notin> set (rest @ filter (\<lambda>n. n \<notin> visited) ns)" for x
  proof -
    have xv: "x \<in> visited" "x \<notin> set rest" using x by auto
    show ?thesis
    proof (cases "x = u")
      case True
      then show ?thesis using u(2) by (simp add: ns_def)
    next
      case False
      then have "x \<notin> set frontier" using xv(2) rest(1) by auto
      then show ?thesis using treeInv_done [OF inv xv(1)] by blast
    qed
  qed
qed

section \<open>runDFS and runBFS find a route, runBFS a shortest one\<close>

lemma dfsLoop_searched:
  "wf_grid gr \<Longrightarrow> treeInv gr start endP d stack visited parent \<Longrightarrow> 0 \<le> count \<Longrightarrow>
   \<exists>r. dfsLoop gr endP stack visited parent count = Returned r \<and> searched gr start endP r"
proof (induction gr endP stack visited parent count arbitrary: d rule: dfsLoop.induct)
  case (1 gr endP stack visited parent count)
  note wf = "1.prems"(1) and inv = "1.prems"(2) and cnt = "1.prems"(3)
  show ?case
  proof (cases "stack = []")
    case True
    have "\<forall>q. \<not> routeBetween gr start endP q"
      using treeInv_exhausted inv True by blast
    moreover have "dfsLoop gr endP stack visited parent count
                     = Returned \<lparr>path = [], exploredCount = count\<rparr>"
      using True by (subst dfsLoop.simps) simp
    ultimately show ?thesis
      using cnt by (simp add: searched_def)
  next
    case ne: False
    let ?u = "last stack"
    have uin: "?u \<in> set stack" using ne by simp
    have uv: "?u \<in> visited" using treeInv_start [OF inv] uin by blast
    show ?thesis
    proof (cases "?u = endP")
      case True
      obtain ps where ps: "returnPath parent ?u (count + 1)
                             = Returned \<lparr>path = ps, exploredCount = count + 1\<rparr>"
        "routeBetween gr start ?u ps"
        using treeInv_found [OF inv uv] by blast
      have "searched gr start endP \<lparr>path = ps, exploredCount = count + 1\<rparr>"
        using ps(2) True cnt by (simp add: searched_def)
      moreover have "dfsLoop gr endP stack visited parent count
                       = Returned \<lparr>path = ps, exploredCount = count + 1\<rparr>"
        using ne True ps(1) by (subst dfsLoop.simps) (simp add: Let_def)
      ultimately show ?thesis by simp
    next
      case False
      let ?ns = "nbrs gr ?u"
      let ?d' = "\<lambda>v. if v \<in> set ?ns \<and> v \<notin> visited then Suc (d ?u) else d v"
      let ?parent' = "\<lambda>v. if v \<in> set ?ns \<and> v \<notin> visited then Some ?u else parent v"
      let ?stack' = "butlast stack @ filter (\<lambda>n. n \<notin> visited) ?ns"
      have gn: "getNeighbors ?u gr = Inr ?ns" by (rule getNeighbors_nbrs [OF wf])
      have vn: "visitNeighbors ?u ?ns (butlast stack, visited, parent)
                  = (?stack', visited \<union> set ?ns, ?parent')"
        by (rule visitNeighbors_closed [OF distinct_nbrs [OF wf]])
      have sub: "set stack \<subseteq> insert ?u (set (butlast stack))"
        using ne by (metis append_butlast_last_id insert_is_Un list.simps(15) set_append
            subset_refl sup_commute empty_set)
      have sub2: "set (butlast stack) \<subseteq> set stack" by (auto dest: in_set_butlastD)
      have inv': "treeInv gr start endP ?d' ?stack' (visited \<union> set ?ns) ?parent'"
        by (rule treeInv_expand [OF inv uin False sub sub2])
      have "\<exists>r. dfsLoop gr endP ?stack' (visited \<union> set ?ns) ?parent' (count + 1) = Returned r \<and>
                 searched gr start endP r"
        using cnt
        by (intro "1.IH" [OF ne refl refl refl False gn vn [symmetric] refl wf inv']) simp
      moreover have "dfsLoop gr endP stack visited parent count
                       = dfsLoop gr endP ?stack' (visited \<union> set ?ns) ?parent' (count + 1)"
        using ne False gn vn by (subst dfsLoop.simps) (simp add: Let_def)
      ultimately show ?thesis by simp
    qed
  qed
qed


lemma treeInv_initial: "treeInv gr start endP (\<lambda>v. 0) [start] {start} Map.empty"
proof (rule treeInvI)
  show "\<exists>ps. links Map.empty v ps \<and> hd ps = start \<and> route gr ps \<and> set ps \<subseteq> {start} \<and>
             length ps = Suc 0" if "v \<in> {start}" for v
    using that by (intro exI [of _ "[start]"]) (simp add: links.root)
qed simp_all

lemma runDFS_searched:
  assumes "wf_grid gr"
  shows "\<exists>r. runDFS gr start endP = Returned r \<and> searched gr start endP r"
  unfolding runDFS_def
  by (rule dfsLoop_searched [OF assms treeInv_initial]) simp

lemma sorted_map_const: "\<forall>x \<in> set xs. f x = c \<Longrightarrow> sorted (map f xs)"
  by (induction xs) auto

lemma bfsOrder_expand:
  assumes inv: "treeInv gr start endP d (u # rest) visited parent"
    and ord: "bfsOrder gr d (u # rest) visited"
  defines "ns \<equiv> nbrs gr u"
  defines "d' \<equiv> (\<lambda>v. if v \<in> set ns \<and> v \<notin> visited then Suc (d u) else d v)"
  defines "new \<equiv> filter (\<lambda>n. n \<notin> visited) ns"
  shows "bfsOrder gr d' (rest @ new) (visited \<union> set ns)"
proof -
  have srt: "sorted (map d (u # rest))"
    and bnd: "\<And>v. v \<in> set (u # rest) \<Longrightarrow> d v \<le> Suc (d u)"
    and fin: "\<And>x. x \<in> visited \<Longrightarrow> x \<notin> set (u # rest) \<Longrightarrow>
                (\<forall>v \<in> set (u # rest). d x \<le> d v) \<and> (\<forall>w \<in> set (nbrs gr x). d w \<le> Suc (d x))"
    using ord unfolding bfsOrder_def by auto
  have qv: "set (u # rest) \<subseteq> visited" using treeInv_start [OF inv] by blast
  have dr: "d' v = d v \<and> d u \<le> d v \<and> d v \<le> Suc (d u)" if "v \<in> set rest" for v
    using that srt bnd [of v] qv by (auto simp: d'_def)
  have dn: "d' v = Suc (d u)" if "v \<in> set new" for v
    using that by (simp add: d'_def new_def)
  have low: "d u \<le> d' v" if "v \<in> set (rest @ new)" for v
    using that dr dn by fastforce
  have high: "d' v \<le> Suc (d u)" if "v \<in> set (rest @ new)" for v
    using that dr dn by fastforce
  have 1: "sorted (map d' (rest @ new))"
  proof -
    have "map d' rest = map d rest" using dr by simp
    moreover have "sorted (map d rest)" using srt by simp
    ultimately have "sorted (map d' rest)" by (simp only:)
    moreover have "sorted (map d' new)" using dn by (intro sorted_map_const [of _ _ "Suc (d u)"]) simp
    moreover have "\<forall>x \<in> set rest. \<forall>y \<in> set new. d' x \<le> d' y" using dr dn by simp
    ultimately show ?thesis by (simp add: sorted_append)
  qed
  have 2: "d' v \<le> Suc (d' (hd (rest @ new)))" if v: "v \<in> set (rest @ new)" for v
  proof -
    have "rest @ new \<noteq> []" using v by auto
    then have "hd (rest @ new) \<in> set (rest @ new)" by (rule hd_in_set)
    then have "d u \<le> d' (hd (rest @ new))" by (rule low)
    then show ?thesis using high [OF v] by simp
  qed
  have 3: "(\<forall>v \<in> set (rest @ new). d' x \<le> d' v) \<and> (\<forall>w \<in> set (nbrs gr x). d' w \<le> Suc (d' x))"
    if x: "x \<in> visited \<union> set ns" "x \<notin> set (rest @ new)" for x
  proof -
    have xv: "x \<in> visited" "x \<notin> set rest" using x by (auto simp: new_def)
    have dx: "d' x = d x" using xv(1) by (simp add: d'_def)
    have xu: "d x \<le> d u"
    proof (cases "x = u")
      case False
      then show ?thesis using fin [OF xv(1)] xv(2) by simp
    qed simp
    have a: "\<forall>v \<in> set (rest @ new). d' x \<le> d' v"
      using low xu dx by (metis le_trans)
    have b: "d' w \<le> Suc (d' x)" if w: "w \<in> set (nbrs gr x)" for w
    proof (cases "x = u")
      case True
      show ?thesis
      proof (cases "w \<in> visited")
        case wv: True
        then have "d' w = d w" by (simp add: d'_def)
        moreover have "d w \<le> Suc (d u)"
        proof (cases "w \<in> set (u # rest)")
          case True
          then show ?thesis by (rule bnd)
        next
          case False
          then show ?thesis using fin [OF wv False] by simp
        qed
        ultimately show ?thesis using True dx by simp
      next
        case False
        then have "d' w = Suc (d u)" using w True by (simp add: d'_def ns_def)
        then show ?thesis using True dx by simp
      qed
    next
      case False
      then have nx: "x \<notin> set (u # rest)" using xv(2) by simp
      have "x \<notin> set (u # rest)" by (rule nx)
      then have "set (nbrs gr x) \<subseteq> visited" using treeInv_done [OF inv xv(1)] by blast
      then have "d' w = d w" using w by (auto simp: d'_def)
      then show ?thesis using fin [OF xv(1) nx] w dx by simp
    qed
    show ?thesis using a b by blast
  qed
  show ?thesis
    unfolding bfsOrder_def using 1 2 3 by (intro conjI ballI) auto
qed

lemma bfsOrder_shortest:
  assumes inv: "treeInv gr start endP d (u # rest) visited parent"
    and ord: "bfsOrder gr d (u # rest) visited"
    and q: "route gr q" "hd q = start" "last q = u"
  shows "d u < length q"
proof -
  have srt: "sorted (map d (u # rest))"
    and fin: "\<And>x. x \<in> visited \<Longrightarrow> x \<notin> set (u # rest) \<Longrightarrow>
                (\<forall>w \<in> set (nbrs gr x). d w \<le> Suc (d x))"
    using ord unfolding bfsOrder_def by auto
  note sv = treeInv_start [OF inv]
  have e: "\<forall>x \<in> visited - set (u # rest). \<forall>w \<in> set (nbrs gr x). w \<in> visited \<and> d w \<le> Suc (d x)"
    using treeInv_done [OF inv] fin by blast
  have k: "\<forall>v \<in> visited - (visited - set (u # rest)). d u \<le> d v"
    using srt by auto
  have "(last q \<in> visited \<and> d (last q) < length q) \<or> d u < length q"
    by (rule label_lower_bound [OF _ _ _ e k q(1,2)]) (use sv in auto)
  then show ?thesis using q(3) by auto
qed

lemma bfsLoop_searched:
  "wf_grid gr \<Longrightarrow> treeInv gr start endP d queue visited parent \<Longrightarrow>
   bfsOrder gr d queue visited \<Longrightarrow> 0 \<le> count \<Longrightarrow>
   \<exists>r. bfsLoop gr endP queue visited parent count = Returned r \<and> searched gr start endP r \<and>
       (path r \<noteq> [] \<longrightarrow> shortest gr start endP (path r))"
proof (induction gr endP queue visited parent count arbitrary: d rule: bfsLoop.induct)
  case (1 gr endP queue visited parent count)
  note wf = "1.prems"(1) and inv = "1.prems"(2) and ord = "1.prems"(3) and cnt = "1.prems"(4)
  show ?case
  proof (cases queue)
    case Nil
    have "\<forall>q. \<not> routeBetween gr start endP q"
      using treeInv_exhausted inv Nil by blast
    moreover have "bfsLoop gr endP queue visited parent count
                     = Returned \<lparr>path = [], exploredCount = count\<rparr>"
      using Nil by (subst bfsLoop.simps) simp
    ultimately show ?thesis
      using cnt by (simp add: searched_def)
  next
    case (Cons u rest)
    have uv: "u \<in> visited" using treeInv_start [OF inv] Cons by simp
    show ?thesis
    proof (cases "u = endP")
      case True
      obtain ps where ps: "returnPath parent u (count + 1)
                             = Returned \<lparr>path = ps, exploredCount = count + 1\<rparr>"
        "routeBetween gr start u ps" "length ps = Suc (d u)"
        using treeInv_found [OF inv uv] by blast
      have "d u < length q" if "routeBetween gr start endP q" for q
        using bfsOrder_shortest [OF inv [unfolded Cons] ord [unfolded Cons]] that True
        by (simp add: routeBetween_def)
      then have "shortest gr start endP ps"
        using ps(2,3) True by (fastforce simp: shortest_def)
      moreover have "searched gr start endP \<lparr>path = ps, exploredCount = count + 1\<rparr>"
        using ps(2) True cnt by (simp add: searched_def)
      moreover have "bfsLoop gr endP queue visited parent count
                       = Returned \<lparr>path = ps, exploredCount = count + 1\<rparr>"
        using Cons True ps(1) by (subst bfsLoop.simps) (simp add: Let_def)
      ultimately show ?thesis by simp
    next
      case False
      let ?ns = "nbrs gr u"
      let ?d' = "\<lambda>v. if v \<in> set ?ns \<and> v \<notin> visited then Suc (d u) else d v"
      let ?parent' = "\<lambda>v. if v \<in> set ?ns \<and> v \<notin> visited then Some u else parent v"
      let ?queue' = "rest @ filter (\<lambda>n. n \<notin> visited) ?ns"
      have gn: "getNeighbors u gr = Inr ?ns" by (rule getNeighbors_nbrs [OF wf])
      have vn: "visitNeighbors u ?ns (rest, visited, parent)
                  = (?queue', visited \<union> set ?ns, ?parent')"
        by (rule visitNeighbors_closed [OF distinct_nbrs [OF wf]])
      have inv': "treeInv gr start endP ?d' ?queue' (visited \<union> set ?ns) ?parent'"
        by (rule treeInv_expand [OF inv _ False]) (auto simp: Cons)
      have ord': "bfsOrder gr ?d' ?queue' (visited \<union> set ?ns)"
        by (rule bfsOrder_expand [OF inv [unfolded Cons] ord [unfolded Cons]])
      have "\<exists>r. bfsLoop gr endP ?queue' (visited \<union> set ?ns) ?parent' (count + 1) = Returned r \<and>
                 searched gr start endP r \<and> (path r \<noteq> [] \<longrightarrow> shortest gr start endP (path r))"
        using cnt
        by (intro "1.IH" [OF Cons refl False gn vn [symmetric] refl wf inv' ord']) simp
      moreover have "bfsLoop gr endP queue visited parent count
                       = bfsLoop gr endP ?queue' (visited \<union> set ?ns) ?parent' (count + 1)"
        using Cons False gn vn by (subst bfsLoop.simps) (simp add: Let_def)
      ultimately show ?thesis by simp
    qed
  qed
qed

lemma runBFS_searched:
  assumes "wf_grid gr"
  shows "\<exists>r. runBFS gr start endP = Returned r \<and> searched gr start endP r \<and>
             (path r \<noteq> [] \<longrightarrow> shortest gr start endP (path r))"
  unfolding runBFS_def
  by (rule bfsLoop_searched [OF assms treeInv_initial]) (simp_all add: bfsOrder_def)

section \<open>runDijkstra finds a shortest route\<close>

lemma sort_key_Cons:
  assumes "sort_key f xs = a # rest"
  shows "set xs = insert a (set rest) \<and> length xs = Suc (length rest) \<and>
         (\<forall>e \<in> set rest. f a \<le> f e)"
proof -
  have "set xs = set (sort_key f xs)" "length xs = length (sort_key f xs)" by simp_all
  moreover have "sorted (map f (sort_key f xs))" by simp
  ultimately show ?thesis unfolding assms by simp
qed

text \<open>The loop over the neighbors of runDijkstra, in closed form.\<close>

lemma dijkstraNeighbors_closed:
  assumes "distinct ns" and "current \<in> visited" and "rowDefined current"
    and "distances current = Some (enat j)"
    and "\<forall>w \<in> set ns. rowDefined w \<and> distances w \<noteq> None"
  shows "dijkstraNeighbors current visited ns (distances, parent, priorityQueue) =
     Inr ((\<lambda>v. if v \<in> set ns \<and> v \<notin> visited \<and> (\<exists>old. distances v = Some old \<and> enat (Suc j) < old)
                then Some (enat (Suc j)) else distances v),
          (\<lambda>v. if v \<in> set ns \<and> v \<notin> visited \<and> (\<exists>old. distances v = Some old \<and> enat (Suc j) < old)
                then Some current else parent v),
          priorityQueue @
            map (\<lambda>w. (w, enat (Suc j)))
              (filter (\<lambda>v. v \<notin> visited \<and> (\<exists>old. distances v = Some old \<and> enat (Suc j) < old)) ns))"
  using assms
proof (induction ns arbitrary: distances parent priorityQueue)
  case Nil
  then show ?case by simp
next
  case (Cons n ns)
  have d: "distinct ns" "n \<notin> set ns" using Cons.prems(1) by simp_all
  obtain old where old: "distances n = Some old" using Cons.prems(5) by auto
  have rn: "rowDefined n" using Cons.prems(5) by simp
  have one: "enat j + 1 = enat (Suc j)" by (simp add: one_enat_def)
  show ?case
  proof (cases "n \<notin> visited \<and> enat (Suc j) < old")
    case True
    let ?dist = "distances(n \<mapsto> enat (Suc j))"
    have nc: "n \<noteq> current" using True Cons.prems(2) by auto
    have step: "dijkstraNeighbors current visited (n # ns) (distances, parent, priorityQueue) =
                dijkstraNeighbors current visited ns
                  (?dist, parent(n \<mapsto> current), priorityQueue @ [(n, enat (Suc j))])"
      using True Cons.prems(3,4) old rn by (simp add: Let_def one)
    have ih: "dijkstraNeighbors current visited ns
                  (?dist, parent(n \<mapsto> current), priorityQueue @ [(n, enat (Suc j))]) =
       Inr ((\<lambda>v. if v \<in> set ns \<and> v \<notin> visited \<and> (\<exists>old. ?dist v = Some old \<and> enat (Suc j) < old)
                then Some (enat (Suc j)) else ?dist v),
          (\<lambda>v. if v \<in> set ns \<and> v \<notin> visited \<and> (\<exists>old. ?dist v = Some old \<and> enat (Suc j) < old)
                then Some current else (parent(n \<mapsto> current)) v),
          (priorityQueue @ [(n, enat (Suc j))]) @
            map (\<lambda>w. (w, enat (Suc j)))
              (filter (\<lambda>v. v \<notin> visited \<and> (\<exists>old. ?dist v = Some old \<and> enat (Suc j) < old)) ns))"
      by (rule Cons.IH [OF d(1) Cons.prems(2,3)]) (use Cons.prems(4,5) nc in auto)
    have f: "filter (\<lambda>v. v \<notin> visited \<and> (\<exists>old. ?dist v = Some old \<and> enat (Suc j) < old)) ns
           = filter (\<lambda>v. v \<notin> visited \<and> (\<exists>old. distances v = Some old \<and> enat (Suc j) < old)) ns"
      using d(2) by (intro filter_cong) auto
    show ?thesis
      unfolding step ih f using True old d(2) by (auto simp: fun_eq_iff)
  next
    case False
    have step: "dijkstraNeighbors current visited (n # ns) (distances, parent, priorityQueue) =
                dijkstraNeighbors current visited ns (distances, parent, priorityQueue)"
      using False Cons.prems(3,4) old rn by (auto simp: Let_def one)
    have ih: "dijkstraNeighbors current visited ns (distances, parent, priorityQueue) =
       Inr ((\<lambda>v. if v \<in> set ns \<and> v \<notin> visited \<and> (\<exists>old. distances v = Some old \<and> enat (Suc j) < old)
                then Some (enat (Suc j)) else distances v),
          (\<lambda>v. if v \<in> set ns \<and> v \<notin> visited \<and> (\<exists>old. distances v = Some old \<and> enat (Suc j) < old)
                then Some current else parent v),
          priorityQueue @
            map (\<lambda>w. (w, enat (Suc j)))
              (filter (\<lambda>v. v \<notin> visited \<and> (\<exists>old. distances v = Some old \<and> enat (Suc j) < old)) ns))"
      by (rule Cons.IH [OF d(1) Cons.prems(2,3)]) (use Cons.prems(4,5) in auto)
    show ?thesis
      unfolding step ih using False old by (auto simp: fun_eq_iff)
  qed
qed


lemma dijkstraInvD:
  assumes "dijkstraInv gr start endP distances parent priorityQueue visited"
  shows "rowDefined start" and "distances start = Some 0"
    and "\<And>v. v \<in> cells \<union> {start} \<Longrightarrow> distances v \<noteq> None"
    and "visited \<union> fst ` set priorityQueue \<subseteq> cells \<union> {start}"
    and "\<And>v. known distances v \<Longrightarrow>
           \<exists>ps. links parent v ps \<and> hd ps = start \<and> route gr ps \<and>
                length ps = Suc (distOf distances v) \<and> set (butlast ps) \<subseteq> visited"
    and "\<And>v. known distances v \<Longrightarrow> v \<notin> visited \<Longrightarrow>
           (v, enat (distOf distances v)) \<in> set priorityQueue"
    and "\<And>e. e \<in> set priorityQueue \<Longrightarrow>
           known distances (fst e) \<and> enat (distOf distances (fst e)) \<le> snd e \<and>
           (\<forall>u \<in> visited. enat (distOf distances u) \<le> snd e)"
    and "\<And>u. u \<in> visited \<Longrightarrow> u \<noteq> endP \<and> known distances u \<and>
           (\<forall>w \<in> set (nbrs gr u). known distances w \<and>
              distOf distances w \<le> Suc (distOf distances u))"
  using assms unfolding dijkstraInv_def by blast+

lemma dijkstraInvI:
  assumes "rowDefined start" and "distances start = Some 0"
    and "\<And>v. v \<in> cells \<union> {start} \<Longrightarrow> distances v \<noteq> None"
    and "visited \<union> fst ` set priorityQueue \<subseteq> cells \<union> {start}"
    and "\<And>v. known distances v \<Longrightarrow>
           \<exists>ps. links parent v ps \<and> hd ps = start \<and> route gr ps \<and>
                length ps = Suc (distOf distances v) \<and> set (butlast ps) \<subseteq> visited"
    and "\<And>v. known distances v \<Longrightarrow> v \<notin> visited \<Longrightarrow>
           (v, enat (distOf distances v)) \<in> set priorityQueue"
    and "\<And>e. e \<in> set priorityQueue \<Longrightarrow>
           known distances (fst e) \<and> enat (distOf distances (fst e)) \<le> snd e \<and>
           (\<forall>u \<in> visited. enat (distOf distances u) \<le> snd e)"
    and "\<And>u. u \<in> visited \<Longrightarrow> u \<noteq> endP \<and> known distances u \<and>
           (\<forall>w \<in> set (nbrs gr u). known distances w \<and>
              distOf distances w \<le> Suc (distOf distances u))"
  shows "dijkstraInv gr start endP distances parent priorityQueue visited"
  unfolding dijkstraInv_def
  apply (intro conjI allI impI ballI)
  using assms apply simp_all
  done

lemma known_distOf: "known distances v \<Longrightarrow> distances v = Some (enat (distOf distances v))"
  by (auto simp: known_def distOf_def)

lemma known_Some: "distances v = Some (enat n) \<Longrightarrow> known distances v \<and> distOf distances v = n"
  by (auto simp: known_def distOf_def)

lemma cells_rowDefined: "v \<in> cells \<Longrightarrow> rowDefined v"
  by (auto simp: cells_def rowDefined_def)

lemma dijkstraInv_initial:
  assumes "rowDefined start"
  shows "dijkstraInv gr start endP (initialDistances(start \<mapsto> 0)) Map.empty [(start, 0)] {}"
proof (rule dijkstraInvI)
  let ?dist = "initialDistances(start \<mapsto> 0)"
  have k: "v = start" if "known ?dist v" for v
    using that by (auto simp: known_def initialDistances_def split: if_splits)
  have d0: "distOf ?dist start = 0" by (simp add: distOf_def zero_enat_def)
  have ks: "known ?dist start" by (simp add: known_def zero_enat_def)
  show "rowDefined start" by (rule assms)
  show "?dist start = Some 0" by simp
  show "?dist v \<noteq> None" if "v \<in> cells \<union> {start}" for v
    using that by (auto simp: initialDistances_def)
  show "{} \<union> fst ` set [(start, 0::enat)] \<subseteq> cells \<union> {start}" by simp
  show "\<exists>ps. links Map.empty v ps \<and> hd ps = start \<and> route gr ps \<and>
             length ps = Suc (distOf ?dist v) \<and> set (butlast ps) \<subseteq> {}" if "known ?dist v" for v
    using k [OF that] d0 by (intro exI [of _ "[start]"]) (simp add: links.root)
  show "(v, enat (distOf ?dist v)) \<in> set [(start, 0)]" if "known ?dist v" for v
    using k [OF that] d0 by (simp add: zero_enat_def)
  show "known ?dist (fst e) \<and> enat (distOf ?dist (fst e)) \<le> snd e \<and>
        (\<forall>u \<in> {}. enat (distOf ?dist u) \<le> snd e)" if "e \<in> set [(start, 0::enat)]" for e
    using that ks d0 by (simp add: zero_enat_def)
qed simp

lemma dijkstraInv_skip:
  assumes inv: "dijkstraInv gr start endP distances parent priorityQueue visited"
    and pq: "set priorityQueue = insert e (set rest)" and e: "fst e \<in> visited"
  shows "dijkstraInv gr start endP distances parent rest visited"
proof (rule dijkstraInvI)
  note D = dijkstraInvD [OF inv]
  show "rowDefined start" "distances start = Some 0" by (rule D)+
  show "distances v \<noteq> None" if "v \<in> cells \<union> {start}" for v by (rule D(3) [OF that])
  show "visited \<union> fst ` set rest \<subseteq> cells \<union> {start}" using D(4) pq by auto
  show "\<exists>ps. links parent v ps \<and> hd ps = start \<and> route gr ps \<and>
             length ps = Suc (distOf distances v) \<and> set (butlast ps) \<subseteq> visited"
    if "known distances v" for v by (rule D(5) [OF that])
  show "(v, enat (distOf distances v)) \<in> set rest" if "known distances v" "v \<notin> visited" for v
    using D(6) [OF that] pq e that(2) by auto
  show "known distances (fst x) \<and> enat (distOf distances (fst x)) \<le> snd x \<and>
        (\<forall>u \<in> visited. enat (distOf distances u) \<le> snd x)" if "x \<in> set rest" for x
    using D(7) [of x] that pq by simp
  show "u \<noteq> endP \<and> known distances u \<and>
        (\<forall>w \<in> set (nbrs gr u). known distances w \<and>
           distOf distances w \<le> Suc (distOf distances u))" if "u \<in> visited" for u
    by (rule D(8) [OF that])
qed

lemma dijkstraInv_exhausted:
  assumes inv: "dijkstraInv gr start endP distances parent [] visited"
  shows "\<not> routeBetween gr start endP q"
proof
  assume q: "routeBetween gr start endP q"
  note D = dijkstraInvD [OF inv]
  have kv: "v \<in> visited" if "known distances v" for v
    using D(6) [OF that] by auto
  have c: "\<forall>u \<in> visited. set (nbrs gr u) \<subseteq> visited"
    using D(8) kv by blast
  have "known distances start" using D(2) by (simp add: known_def zero_enat_def)
  then have s: "start \<in> visited" by (rule kv)
  have r: "route gr q" "hd q = start" "last q = endP" using q by (simp_all add: routeBetween_def)
  have "set q \<subseteq> visited"
    using route_closed [OF c r(1)] r(2) s by simp
  moreover have "q \<noteq> []" using r(1) by auto
  ultimately have "endP \<in> visited" using r(3) last_in_set [of q] by auto
  then show False using D(8) by blast
qed

text \<open>The entry taken from the sorted queue carries the distance of its point.\<close>

lemma dijkstraInv_min:
  assumes inv: "dijkstraInv gr start endP distances parent priorityQueue visited"
    and pq: "set priorityQueue = insert e (set rest)" "\<forall>x \<in> set rest. snd e \<le> snd x"
    and e: "fst e \<notin> visited"
  shows "snd e = enat (distOf distances (fst e))"
proof -
  note D = dijkstraInvD [OF inv]
  have ein: "e \<in> set priorityQueue" using pq(1) by simp
  have k: "known distances (fst e)" "enat (distOf distances (fst e)) \<le> snd e"
    using D(7) [OF ein] by simp_all
  have "(fst e, enat (distOf distances (fst e))) \<in> set priorityQueue"
    by (rule D(6) [OF k(1) e])
  moreover have "\<forall>x \<in> set priorityQueue. snd e \<le> snd x" using pq by auto
  ultimately have "snd e \<le> snd (fst e, enat (distOf distances (fst e)))" by blast
  then show ?thesis using k(2) by simp
qed

lemma dijkstraInv_found:
  assumes inv: "dijkstraInv gr start endP distances parent priorityQueue visited"
    and pq: "set priorityQueue = insert e (set rest)" "\<forall>x \<in> set rest. snd e \<le> snd x"
    and e: "fst e \<notin> visited"
  shows "\<exists>ps. returnPath parent (fst e) n = Returned \<lparr>path = ps, exploredCount = n\<rparr> \<and>
               shortest gr start (fst e) ps"
proof -
  note D = dijkstraInvD [OF inv]
  let ?d = "distOf distances"
  have ein: "e \<in> set priorityQueue" using pq(1) by simp
  have k: "known distances (fst e)" using D(7) [OF ein] by simp
  have m: "snd e = enat (?d (fst e))" by (rule dijkstraInv_min [OF inv pq e])
  obtain ps where ps: "links parent (fst e) ps" "hd ps = start" "route gr ps"
    "length ps = Suc (?d (fst e))"
    using D(5) [OF k] by blast
  have l: "last ps = fst e" using links_last [OF ps(1)] by simp
  have low: "?d (fst e) < length q" if q: "routeBetween gr start (fst e) q" for q
  proof -
    have r: "route gr q" "hd q = start" "last q = fst e" using q by (simp_all add: routeBetween_def)
    have 1: "start \<in> {v. known distances v}" using D(2) by (simp add: known_def zero_enat_def)
    have 2: "?d start = 0" using D(2) by (simp add: distOf_def zero_enat_def)
    have 3: "visited \<subseteq> {v. known distances v}" using D(8) by blast
    have 4: "\<forall>u \<in> visited. \<forall>w \<in> set (nbrs gr u). w \<in> {v. known distances v} \<and> ?d w \<le> Suc (?d u)"
      using D(8) by blast
    have 5: "\<forall>v \<in> {v. known distances v} - visited. ?d (fst e) \<le> ?d v"
    proof
      fix v assume v: "v \<in> {v. known distances v} - visited"
      then have "(v, enat (?d v)) \<in> set priorityQueue" using D(6) by simp
      moreover have "\<forall>x \<in> set priorityQueue. snd e \<le> snd x" using pq by auto
      ultimately have "snd e \<le> snd (v, enat (?d v))" by blast
      then have "snd e \<le> enat (?d v)" by simp
      then show "?d (fst e) \<le> ?d v" using m by simp
    qed
    have "(last q \<in> {v. known distances v} \<and> ?d (last q) < length q) \<or> ?d (fst e) < length q"
      by (rule label_lower_bound [OF 1 2 3 4 5 r(1,2)])
    then show ?thesis using r(3) by auto
  qed
  have "routeBetween gr start (fst e) ps" using ps l by (simp add: routeBetween_def)
  moreover have "length ps \<le> length q" if "routeBetween gr start (fst e) q" for q
    using low [OF that] ps(4) by simp
  ultimately have "shortest gr start (fst e) ps" by (simp add: shortest_def)
  then show ?thesis using returnPath_links [OF ps(1), of n] by blast
qed


lemma set_butlast_last: "ps \<noteq> [] \<Longrightarrow> set ps = insert (last ps) (set (butlast ps))"
  by (metis append_butlast_last_id insert_is_Un list.simps(15) set_append sup_commute empty_set)

lemma dijkstraInv_expand:
  assumes inv: "dijkstraInv gr start endP distances parent priorityQueue visited"
    and pq: "set priorityQueue = insert e (set rest)" "\<forall>x \<in> set rest. snd e \<le> snd x"
    and e: "fst e \<notin> visited" "fst e \<noteq> endP"
  defines "c \<equiv> fst e"
  defines "j \<equiv> distOf distances c"
  defines "improves \<equiv> (\<lambda>v. v \<in> set (nbrs gr c) \<and> v \<notin> insert c visited \<and>
                          (\<exists>old. distances v = Some old \<and> enat (Suc j) < old))"
  defines "distances' \<equiv> (\<lambda>v. if improves v then Some (enat (Suc j)) else distances v)"
  defines "parent' \<equiv> (\<lambda>v. if improves v then Some c else parent v)"
  defines "priorityQueue' \<equiv> rest @ map (\<lambda>w. (w, enat (Suc j))) (filter improves (nbrs gr c))"
  shows "dijkstraInv gr start endP distances' parent' priorityQueue' (insert c visited)"
proof (rule dijkstraInvI)
  note D = dijkstraInvD [OF inv]
  let ?d = "distOf distances" and ?d' = "distOf distances'"
  have ein: "e \<in> set priorityQueue" using pq(1) by simp
  have kc: "known distances c" using D(7) [OF ein] by (simp add: c_def)
  have m: "snd e = enat j" using dijkstraInv_min [OF inv pq e(1)] by (simp add: c_def j_def)
  have imp_cells: "v \<in> cells" if "improves v" for v
    using that nbrs_cells [of gr c] by (auto simp: improves_def)
  have imp_nv: "v \<notin> insert c visited" if "improves v" for v
    using that by (simp add: improves_def)
  have k': "known distances' v \<longleftrightarrow> known distances v \<or> improves v" for v
    by (auto simp: known_def distances'_def)
  have d': "?d' v = (if improves v then Suc j else ?d v)" for v
    by (simp add: distOf_def distances'_def)
  have mono: "?d' v \<le> ?d v" if "known distances v" for v
  proof (cases "improves v")
    case True
    then obtain old where "distances v = Some old" "enat (Suc j) < old"
      by (auto simp: improves_def)
    moreover have "distances v = Some (enat (?d v))" by (rule known_distOf [OF that])
    ultimately have "enat (Suc j) < enat (?d v)" by simp
    then have "Suc j < ?d v" by simp
    then show ?thesis using True by (simp add: d')
  next
    case False
    then show ?thesis by (simp add: d')
  qed
  have vb: "?d u \<le> j" if "u \<in> visited" for u
    using D(7) [OF ein] that m by auto
  have pq': "set priorityQueue' = set rest \<union> (\<lambda>w. (w, enat (Suc j))) ` {w. improves w}"
    by (auto simp: priorityQueue'_def improves_def)
  show "rowDefined start" by (rule D(1))
  have ns: "\<not> improves start"
  proof
    assume "improves start"
    then have "enat (Suc j) < 0" using D(2) by (auto simp: improves_def)
    then show False by simp
  qed
  then show "distances' start = Some 0" using D(2) by (simp add: distances'_def)
  show "distances' v \<noteq> None" if "v \<in> cells \<union> {start}" for v
    using D(3) [OF that] by (simp add: distances'_def)
  have cin: "c \<in> cells \<union> {start}" using D(4) ein by (auto simp: c_def)
  show "insert c visited \<union> fst ` set priorityQueue' \<subseteq> cells \<union> {start}"
    using D(4) cin pq(1) imp_cells unfolding pq' by auto
  show "\<exists>ps. links parent' v ps \<and> hd ps = start \<and> route gr ps \<and>
             length ps = Suc (?d' v) \<and> set (butlast ps) \<subseteq> insert c visited"
    if kv: "known distances' v" for v
  proof (cases "improves v")
    case True
    obtain ps where ps: "links parent c ps" "hd ps = start" "route gr ps"
      "length ps = Suc j" "set (butlast ps) \<subseteq> visited"
      using D(5) [OF kc] unfolding j_def by blast
    have l: "ps \<noteq> []" "last ps = c" using links_last [OF ps(1)] by simp_all
    have sp: "set ps \<subseteq> insert c visited" using set_butlast_last [OF l(1)] l(2) ps(5) by auto
    have "\<forall>x \<in> set ps. parent' x = parent x" using sp imp_nv by (auto simp: parent'_def)
    then have lc: "links parent' c ps" by (rule links_cong [OF ps(1)])
    have p: "parent' v = Some c" using True by (simp add: parent'_def)
    have "links parent' v (ps @ [v])" by (rule links.step [OF p lc])
    moreover have "v \<in> set (nbrs gr (last ps))" using True l by (simp add: improves_def)
    then have "route gr (ps @ [v])" by (rule route_snoc [OF ps(3)])
    moreover have "hd (ps @ [v]) = start" using ps(2) l(1) by simp
    moreover have "length (ps @ [v]) = Suc (?d' v)" using ps(4) True by (simp add: d')
    moreover have "set (butlast (ps @ [v])) \<subseteq> insert c visited" using sp by simp
    ultimately show ?thesis by blast
  next
    case False
    then have kv0: "known distances v" using kv k' by simp
    obtain ps where ps: "links parent v ps" "hd ps = start" "route gr ps"
      "length ps = Suc (?d v)" "set (butlast ps) \<subseteq> visited"
      using D(5) [OF kv0] by blast
    have l: "ps \<noteq> []" "last ps = v" using links_last [OF ps(1)] by simp_all
    have "\<not> improves x" if xin: "x \<in> set ps" for x
    proof (cases "x = v")
      case True
      then show ?thesis using False by simp
    next
      case nx: False
      then have "x \<in> set (butlast ps)" using xin set_butlast_last [OF l(1)] l(2) by auto
      then have "x \<in> insert c visited" using ps(5) by blast
      then show ?thesis using imp_nv by blast
    qed
    then have "\<forall>x \<in> set ps. parent' x = parent x" by (simp add: parent'_def)
    then have "links parent' v ps" by (rule links_cong [OF ps(1)])
    moreover have "length ps = Suc (?d' v)" using ps(4) False by (simp add: d')
    moreover have "set (butlast ps) \<subseteq> insert c visited" using ps(5) by auto
    ultimately show ?thesis using ps(2,3) by blast
  qed
  show "(v, enat (?d' v)) \<in> set priorityQueue'"
    if kv: "known distances' v" and nv: "v \<notin> insert c visited" for v
  proof (cases "improves v")
    case True
    then have "(v, enat (Suc j)) \<in> (\<lambda>w. (w, enat (Suc j))) ` {w. improves w}" by blast
    then show ?thesis unfolding pq' using True by (simp add: d')
  next
    case False
    then have kv0: "known distances v" using kv k' by simp
    have "(v, enat (?d v)) \<in> set priorityQueue" using D(6) [OF kv0] nv by simp
    moreover have "(v, enat (?d v)) \<noteq> e" using nv by (auto simp: c_def)
    ultimately have "(v, enat (?d v)) \<in> set rest" using pq(1) by simp
    then have "(v, enat (?d v)) \<in> set priorityQueue'" unfolding pq' by blast
    then show ?thesis using False by (simp add: d')
  qed
  show "known distances' (fst x) \<and> enat (?d' (fst x)) \<le> snd x \<and>
        (\<forall>u \<in> insert c visited. enat (?d' u) \<le> snd x)"
    if x: "x \<in> set priorityQueue'" for x
  proof -
    have du: "?d' u \<le> j" if "u \<in> insert c visited" for u
    proof -
      have "\<not> improves u" using that imp_nv by blast
      then have eq: "?d' u = ?d u" by (simp add: d')
      show ?thesis
      proof (cases "u = c")
        case True
        then show ?thesis using eq by (simp add: j_def)
      next
        case False
        then have "u \<in> visited" using that by simp
        then show ?thesis using eq vb [of u] by simp
      qed
    qed
    from x consider "x \<in> set rest" | w where "x = (w, enat (Suc j))" "improves w"
      unfolding pq' by blast
    then show ?thesis
    proof cases
      case 1
      then have xin: "x \<in> set priorityQueue" using pq(1) by simp
      have a: "known distances (fst x)" "enat (?d (fst x)) \<le> snd x"
        using D(7) [OF xin] by simp_all
      have "enat (?d' (fst x)) \<le> enat (?d (fst x))" using mono [OF a(1)] by simp
      then have b: "enat (?d' (fst x)) \<le> snd x" using a(2) by (rule order_trans)
      have "enat j \<le> snd x" using pq(2) 1 m by auto
      then have "\<forall>u \<in> insert c visited. enat (?d' u) \<le> snd x"
        using du by (metis enat_ord_simps(1) order_trans)
      then show ?thesis using a(1) b k' by blast
    next
      case 2
      have "\<forall>u \<in> insert c visited. ?d' u \<le> Suc j" using du by (metis le_SucI)
      then show ?thesis using 2 k' by (simp add: d')
    qed
  qed
  show "u \<noteq> endP \<and> known distances' u \<and>
        (\<forall>w \<in> set (nbrs gr u). known distances' w \<and> ?d' w \<le> Suc (?d' u))"
    if u: "u \<in> insert c visited" for u
  proof -
    have niu: "\<not> improves u" using u imp_nv by blast
    then have du: "?d' u = ?d u" by (simp add: d')
    show ?thesis
    proof (cases "u \<in> visited")
      case True
      note U = D(8) [OF True]
      have "known distances' w \<and> ?d' w \<le> Suc (?d' u)" if "w \<in> set (nbrs gr u)" for w
      proof -
        have kw: "known distances w" "?d w \<le> Suc (?d u)" using U that by simp_all
        have "?d' w \<le> Suc (?d u)" using mono [OF kw(1)] kw(2) by simp
        then show ?thesis using kw(1) k' du by simp
      qed
      then show ?thesis using U k' by blast
    next
      case False
      then have uc: "u = c" using u by simp
      have "known distances' w \<and> ?d' w \<le> Suc (?d' u)" if w: "w \<in> set (nbrs gr u)" for w
      proof (cases "improves w")
        case True
        then show ?thesis using k' du uc by (simp add: d' j_def)
      next
        case ni: False
        show ?thesis
        proof (cases "w \<in> insert c visited")
          case True
          have "known distances w \<and> ?d w \<le> j"
          proof (cases "w = c")
            case True
            then show ?thesis using kc by (simp add: j_def)
          next
            case False
            then have wv: "w \<in> visited" using True by simp
            show ?thesis using D(8) [OF wv] vb [OF wv] by simp
          qed
          then show ?thesis using ni k' du uc by (simp add: d' j_def)
        next
          case False
          have "w \<in> cells" using w nbrs_cells [of gr u] by auto
          then obtain old where old: "distances w = Some old" using D(3) [of w] by auto
          have "\<not> enat (Suc j) < old" using ni False w old uc by (simp add: improves_def)
          then have "old \<le> enat (Suc j)" by simp
          then obtain n where n: "old = enat n" "n \<le> Suc j" by (cases old) auto
          have "known distances w \<and> ?d w = n" using old n(1) by (intro known_Some) simp
          then show ?thesis using ni k' du uc n(2) by (simp add: d' j_def)
        qed
      qed
      then show ?thesis using uc e(2) kc k' by (auto simp: c_def)
    qed
  qed
qed

lemma dijkstraInv_step:
  assumes wf: "wf_grid gr"
    and inv: "dijkstraInv gr start endP distances parent priorityQueue visited"
    and pq: "set priorityQueue = insert e (set rest)" "\<forall>x \<in> set rest. snd e \<le> snd x"
    and e: "fst e \<notin> visited" "fst e \<noteq> endP"
  shows "\<exists>distances' parent' priorityQueue'.
           dijkstraNeighbors (fst e) (insert (fst e) visited) (nbrs gr (fst e))
             (distances, parent, rest) = Inr (distances', parent', priorityQueue') \<and>
           dijkstraInv gr start endP distances' parent' priorityQueue' (insert (fst e) visited)"
proof -
  note D = dijkstraInvD [OF inv]
  let ?c = "fst e"
  let ?j = "distOf distances ?c"
  let ?ns = "nbrs gr ?c"
  let ?imp = "\<lambda>v. v \<in> set ?ns \<and> v \<notin> insert ?c visited \<and>
                  (\<exists>old. distances v = Some old \<and> enat (Suc ?j) < old)"
  have ein: "e \<in> set priorityQueue" using pq(1) by simp
  have kc: "known distances ?c" using D(7) [OF ein] by simp
  have cin: "?c \<in> cells \<union> {start}" using D(4) ein by auto
  have rc: "rowDefined ?c" using cin D(1) cells_rowDefined [of ?c] by blast
  have nsd: "\<forall>w \<in> set ?ns. rowDefined w \<and> distances w \<noteq> None"
    using nbrs_cells [of gr ?c] cells_rowDefined D(3) by blast
  have f: "filter (\<lambda>v. v \<notin> insert ?c visited \<and>
                      (\<exists>old. distances v = Some old \<and> enat (Suc ?j) < old)) ?ns
             = filter ?imp ?ns"
    by (intro filter_cong) auto
  have "dijkstraNeighbors ?c (insert ?c visited) ?ns (distances, parent, rest) =
          Inr ((\<lambda>v. if ?imp v then Some (enat (Suc ?j)) else distances v),
               (\<lambda>v. if ?imp v then Some ?c else parent v),
               rest @ map (\<lambda>w. (w, enat (Suc ?j))) (filter ?imp ?ns))"
    unfolding f [symmetric]
    by (rule dijkstraNeighbors_closed [OF distinct_nbrs [OF wf] _ rc known_distOf [OF kc] nsd])
      simp
  moreover have "dijkstraInv gr start endP
       (\<lambda>v. if ?imp v then Some (enat (Suc ?j)) else distances v)
       (\<lambda>v. if ?imp v then Some ?c else parent v)
       (rest @ map (\<lambda>w. (w, enat (Suc ?j))) (filter ?imp ?ns)) (insert ?c visited)"
    by (rule dijkstraInv_expand [OF inv pq e])
  ultimately show ?thesis by blast
qed

lemma dijkstraLoop_searched:
  "wf_grid gr \<Longrightarrow> dijkstraInv gr start endP distances parent priorityQueue visited \<Longrightarrow>
   0 \<le> count \<Longrightarrow>
   \<exists>r. dijkstraLoop gr endP distances parent priorityQueue visited count = Returned r \<and>
       searched gr start endP r \<and> (path r \<noteq> [] \<longrightarrow> shortest gr start endP (path r))"
proof (induction gr endP distances parent priorityQueue visited count rule: dijkstraLoop.induct)
  case (1 gr endP distances parent priorityQueue visited count)
  note wf = "1.prems"(1) and inv = "1.prems"(2) and cnt = "1.prems"(3)
  show ?case
  proof (cases "sort_key snd priorityQueue")
    case Nil
    then have "priorityQueue = []" by (metis length_0_conv length_sort)
    then have "\<forall>q. \<not> routeBetween gr start endP q"
      using dijkstraInv_exhausted inv by blast
    moreover have "dijkstraLoop gr endP distances parent priorityQueue visited count
                     = Returned \<lparr>path = [], exploredCount = count\<rparr>"
      using Nil by (subst dijkstraLoop.simps) simp
    ultimately show ?thesis using cnt by (simp add: searched_def)
  next
    case (Cons e rest)
    note pq = sort_key_Cons [OF Cons]
    have pq1: "set priorityQueue = insert e (set rest)" and pq2: "\<forall>x \<in> set rest. snd e \<le> snd x"
      using pq by simp_all
    show ?thesis
    proof (cases "fst e \<in> visited")
      case True
      have inv': "dijkstraInv gr start endP distances parent rest visited"
        by (rule dijkstraInv_skip [OF inv pq1 True])
      have "\<exists>r. dijkstraLoop gr endP distances parent rest visited count = Returned r \<and>
               searched gr start endP r \<and> (path r \<noteq> [] \<longrightarrow> shortest gr start endP (path r))"
        by (rule "1.IH"(1) [OF Cons True wf inv' cnt])
      moreover have "dijkstraLoop gr endP distances parent priorityQueue visited count
                       = dijkstraLoop gr endP distances parent rest visited count"
        using Cons True by (subst dijkstraLoop.simps) simp
      ultimately show ?thesis by simp
    next
      case nv: False
      show ?thesis
      proof (cases "fst e = endP")
        case True
        obtain ps where ps: "returnPath parent (fst e) (count + 1)
                               = Returned \<lparr>path = ps, exploredCount = count + 1\<rparr>"
          "shortest gr start (fst e) ps"
          using dijkstraInv_found [OF inv pq1 pq2 nv] by blast
        have "searched gr start endP \<lparr>path = ps, exploredCount = count + 1\<rparr>"
          using ps(2) True cnt by (simp add: searched_def shortest_def)
        moreover have "dijkstraLoop gr endP distances parent priorityQueue visited count
                         = Returned \<lparr>path = ps, exploredCount = count + 1\<rparr>"
          using Cons nv True ps(1) by (subst dijkstraLoop.simps) (simp add: Let_def)
        ultimately show ?thesis using ps(2) True by simp
      next
        case False
        let ?v' = "insert (fst e) visited"
        have gn: "getNeighbors (fst e) gr = Inr (nbrs gr (fst e))"
          by (rule getNeighbors_nbrs [OF wf])
        obtain distances' parent' priorityQueue' where
          dn: "dijkstraNeighbors (fst e) ?v' (nbrs gr (fst e)) (distances, parent, rest)
                 = Inr (distances', parent', priorityQueue')"
          and inv': "dijkstraInv gr start endP distances' parent' priorityQueue' ?v'"
          using dijkstraInv_step [OF wf inv pq1 pq2 nv False] by blast
        have "\<exists>r. dijkstraLoop gr endP distances' parent' priorityQueue' ?v' (count + 1)
                     = Returned r \<and>
                 searched gr start endP r \<and> (path r \<noteq> [] \<longrightarrow> shortest gr start endP (path r))"
          using cnt
          by (intro "1.IH"(2) [OF Cons nv refl refl False gn dn refl refl wf inv']) simp
        moreover have "dijkstraLoop gr endP distances parent priorityQueue visited count
                         = dijkstraLoop gr endP distances' parent' priorityQueue' ?v' (count + 1)"
          using Cons nv False gn dn by (subst dijkstraLoop.simps) (simp add: Let_def)
        ultimately show ?thesis by simp
      qed
    qed
  qed
qed

lemma runDijkstra_searched:
  assumes "wf_grid gr" and "rowDefined start"
  shows "\<exists>r. runDijkstra gr start endP = Returned r \<and> searched gr start endP r \<and>
             (path r \<noteq> [] \<longrightarrow> shortest gr start endP (path r))"
  unfolding runDijkstra_def using assms(2)
  by (simp add: dijkstraLoop_searched [OF assms(1) dijkstraInv_initial [OF assms(2)]])

section \<open>runAStar finds a shortest route\<close>

lemma astarInvD:
  assumes "astarInv gr start endP d openSet closedSet cameFrom cur todo"
  shows "distinct (map nodePos openSet)" and "nodePos ` set openSet \<inter> closedSet = {}"
    and "d start = 0" and "start \<in> closedSet \<or> nodePos ` set openSet = {start}"
    and "\<And>v. v \<in> closedSet \<union> nodePos ` set openSet \<Longrightarrow>
           \<exists>ps. links cameFrom v ps \<and> hd ps = start \<and> route gr ps \<and>
                length ps = Suc (d v) \<and> set (butlast ps) \<subseteq> closedSet"
    and "\<And>n. n \<in> set openSet \<Longrightarrow> node_g n = int (d (nodePos n)) \<and>
           (start \<in> closedSet \<longrightarrow> node_f n = node_g n + heuristic (nodePos n) endP)"
    and "\<And>u. u \<in> closedSet \<Longrightarrow> u \<noteq> endP"
    and "\<And>u q. u \<in> closedSet \<Longrightarrow> route gr q \<Longrightarrow> hd q = start \<Longrightarrow> last q = u \<Longrightarrow>
           d u < length q"
    and "\<And>u w. u \<in> closedSet \<Longrightarrow> w \<in> set (nbrs gr u) \<Longrightarrow>
           (u = cur \<and> w \<in> todo) \<or>
           (w \<in> closedSet \<union> nodePos ` set openSet \<and> d w \<le> Suc (d u))"
proof -
  have a: "distinct (map nodePos openSet)" "nodePos ` set openSet \<inter> closedSet = {}"
    "d start = 0" "start \<in> closedSet \<or> nodePos ` set openSet = {start}"
    "\<forall>v \<in> closedSet \<union> nodePos ` set openSet.
        \<exists>ps. links cameFrom v ps \<and> hd ps = start \<and> route gr ps \<and>
             length ps = Suc (d v) \<and> set (butlast ps) \<subseteq> closedSet"
    "\<forall>n \<in> set openSet.
        node_g n = int (d (nodePos n)) \<and>
        (start \<in> closedSet \<longrightarrow> node_f n = node_g n + heuristic (nodePos n) endP)"
    "\<forall>u \<in> closedSet. u \<noteq> endP \<and>
        (\<forall>q. route gr q \<and> hd q = start \<and> last q = u \<longrightarrow> d u < length q) \<and>
        (\<forall>w \<in> set (nbrs gr u).
           (u = cur \<and> w \<in> todo) \<or>
           (w \<in> closedSet \<union> nodePos ` set openSet \<and> d w \<le> Suc (d u)))"
    using assms unfolding astarInv_def by - ((elim conjE, assumption)+)
  show "distinct (map nodePos openSet)" "nodePos ` set openSet \<inter> closedSet = {}"
    "d start = 0" "start \<in> closedSet \<or> nodePos ` set openSet = {start}"
    by (rule a)+
  show "\<exists>ps. links cameFrom v ps \<and> hd ps = start \<and> route gr ps \<and>
                length ps = Suc (d v) \<and> set (butlast ps) \<subseteq> closedSet"
    if "v \<in> closedSet \<union> nodePos ` set openSet" for v
    using a(5) that by (rule bspec)
  show "node_g n = int (d (nodePos n)) \<and>
           (start \<in> closedSet \<longrightarrow> node_f n = node_g n + heuristic (nodePos n) endP)"
    if "n \<in> set openSet" for n
    using a(6) that by (rule bspec)
  have u: "u \<noteq> endP \<and>
        (\<forall>q. route gr q \<and> hd q = start \<and> last q = u \<longrightarrow> d u < length q) \<and>
        (\<forall>w \<in> set (nbrs gr u).
           (u = cur \<and> w \<in> todo) \<or>
           (w \<in> closedSet \<union> nodePos ` set openSet \<and> d w \<le> Suc (d u)))"
    if "u \<in> closedSet" for u
    using a(7) that by (rule bspec)
  show "u \<noteq> endP" if "u \<in> closedSet" for u using u [OF that] by (rule conjunct1)
  show "d u < length q" if "u \<in> closedSet" "route gr q" "hd q = start" "last q = u" for u q
    using u [OF that(1)] that(2,3,4) by blast
  show "(u = cur \<and> w \<in> todo) \<or>
           (w \<in> closedSet \<union> nodePos ` set openSet \<and> d w \<le> Suc (d u))"
    if "u \<in> closedSet" "w \<in> set (nbrs gr u)" for u w
    using u [OF that(1)] that(2) by blast
qed

lemma astarInvI:
  assumes "distinct (map nodePos openSet)" and "nodePos ` set openSet \<inter> closedSet = {}"
    and "d start = 0" and "start \<in> closedSet \<or> nodePos ` set openSet = {start}"
    and "\<And>v. v \<in> closedSet \<union> nodePos ` set openSet \<Longrightarrow>
           \<exists>ps. links cameFrom v ps \<and> hd ps = start \<and> route gr ps \<and>
                length ps = Suc (d v) \<and> set (butlast ps) \<subseteq> closedSet"
    and "\<And>n. n \<in> set openSet \<Longrightarrow> node_g n = int (d (nodePos n)) \<and>
           (start \<in> closedSet \<longrightarrow> node_f n = node_g n + heuristic (nodePos n) endP)"
    and "\<And>u. u \<in> closedSet \<Longrightarrow> u \<noteq> endP"
    and "\<And>u q. u \<in> closedSet \<Longrightarrow> route gr q \<Longrightarrow> hd q = start \<Longrightarrow> last q = u \<Longrightarrow>
           d u < length q"
    and "\<And>u w. u \<in> closedSet \<Longrightarrow> w \<in> set (nbrs gr u) \<Longrightarrow>
           (u = cur \<and> w \<in> todo) \<or>
           (w \<in> closedSet \<union> nodePos ` set openSet \<and> d w \<le> Suc (d u))"
  shows "astarInv gr start endP d openSet closedSet cameFrom cur todo"
  unfolding astarInv_def
proof (intro conjI ballI allI impI)
  show "distinct (map nodePos openSet)" "nodePos ` set openSet \<inter> closedSet = {}"
    "d start = 0" "start \<in> closedSet \<or> nodePos ` set openSet = {start}"
    by (rule assms)+
  show "\<exists>ps. links cameFrom v ps \<and> hd ps = start \<and> route gr ps \<and>
                length ps = Suc (d v) \<and> set (butlast ps) \<subseteq> closedSet"
    if "v \<in> closedSet \<union> nodePos ` set openSet" for v
    by (rule assms(5) [OF that])
  show "node_g n = int (d (nodePos n))" if "n \<in> set openSet" for n
    using assms(6) [OF that] by (rule conjunct1)
  show "node_f n = node_g n + heuristic (nodePos n) endP"
    if "n \<in> set openSet" "start \<in> closedSet" for n
    using assms(6) [OF that(1)] that(2) by blast
  show "u \<noteq> endP" if "u \<in> closedSet" for u by (rule assms(7) [OF that])
  show "d u < length q" if "u \<in> closedSet" "route gr q \<and> hd q = start \<and> last q = u" for u q
    using assms(8) [OF that(1)] that(2) by blast
  show "(u = cur \<and> w \<in> todo) \<or>
           (w \<in> closedSet \<union> nodePos ` set openSet \<and> d w \<le> Suc (d u))"
    if "u \<in> closedSet" "w \<in> set (nbrs gr u)" for u w
    by (rule assms(9) [OF that])
qed

text \<open>The Manhattan distance changes by at most one along a step.\<close>

lemma heuristic_step:
  assumes "wf_grid gr" and "w \<in> set (nbrs gr u)"
  shows "heuristic u endP \<le> heuristic w endP + 1"
proof -
  have "set (nbrs gr u)
          \<subseteq> set [(fst u, snd u + 1), (fst u + 1, snd u), (fst u, snd u - 1), (fst u - 1, snd u)]"
    unfolding nbrs_wf [OF assms(1)] by (rule filter_is_subset)
  then have "w \<in> {(fst u, snd u + 1), (fst u + 1, snd u), (fst u, snd u - 1), (fst u - 1, snd u)}"
    using assms(2) by auto
  then show ?thesis by (auto simp: heuristic_def)
qed

lemma heuristic_route:
  assumes "wf_grid gr"
  shows "route gr p \<Longrightarrow> heuristic (hd p) endP + 1 \<le> heuristic (last p) endP + int (length p)"
proof (induction p)
  case Nil
  then show ?case by simp
next
  case (Cons a p)
  show ?case
  proof (cases p)
    case Nil
    then show ?thesis by simp
  next
    case (Cons b ps)
    have r: "b \<in> set (nbrs gr a)" "route gr p" using Cons.prems Cons by simp_all
    have "heuristic a endP \<le> heuristic b endP + 1" by (rule heuristic_step [OF assms r(1)])
    moreover have "heuristic b endP + 1 \<le> heuristic (last p) endP + int (length p)"
      using Cons.IH [OF r(2)] Cons by simp
    ultimately show ?thesis using Cons by simp
  qed
qed

lemma route_drop: "route gr q \<Longrightarrow> i < length q \<Longrightarrow> route gr (drop i q)"
proof (induction q arbitrary: i)
  case Nil
  then show ?case by simp
next
  case (Cons a q)
  show ?case
  proof (cases i)
    case 0
    then show ?thesis using Cons.prems by simp
  next
    case (Suc k)
    then have k: "k < length q" using Cons.prems(2) by simp
    then have "route gr q" using Cons.prems(1) by (cases q) simp_all
    then show ?thesis using Cons.IH [OF _ k] Suc by simp
  qed
qed

lemma heuristic_from:
  assumes "wf_grid gr" and "route gr q" and "i < length q"
  shows "heuristic (q ! i) endP + int i + 1 \<le> heuristic (last q) endP + int (length q)"
proof -
  have r: "route gr (drop i q)" by (rule route_drop [OF assms(2,3)])
  have "hd (drop i q) = q ! i" using assms(3) by (simp add: hd_drop_conv_nth)
  moreover have "last (drop i q) = last q" using assms(3) by simp
  moreover have "length (drop i q) = length q - i" by simp
  ultimately show ?thesis
    using heuristic_route [OF assms(1) r, of endP] assms(3) by simp
qed

text \<open>
  A route from \<open>start\<close> either stays in the closed set, or passes an open point whose
  label is at most its index on the route.
\<close>

lemma astar_frontier_on_route:
  assumes inv: "astarInv gr start endP d openSet closedSet cameFrom cur {}"
  shows "route gr q \<Longrightarrow> hd q = start \<Longrightarrow>
         (set q \<subseteq> closedSet \<and> d (last q) < length q) \<or>
         (\<exists>i < length q. q ! i \<in> nodePos ` set openSet \<and> d (q ! i) \<le> i)"
proof (induction q rule: rev_induct)
  case Nil
  then show ?case by simp
next
  case (snoc w q)
  note A = astarInvD [OF inv]
  show ?case
  proof (cases "q = []")
    case True
    then have w: "w = start" using snoc.prems(2) by simp
    show ?thesis
    proof (cases "start \<in> closedSet")
      case True
      then show ?thesis using w \<open>q = []\<close> A(3) by simp
    next
      case False
      then have "start \<in> nodePos ` set openSet" using A(4) by blast
      then have "[start] ! 0 \<in> nodePos ` set openSet \<and> d ([start] ! 0) \<le> 0" using A(3) by simp
      then show ?thesis using w \<open>q = []\<close> by auto
    qed
  next
    case False
    have r: "route gr q" "w \<in> set (nbrs gr (last q))"
      using route_butlast [OF snoc.prems(1) False] by simp_all
    have h: "hd q = start" using snoc.prems(2) False by simp
    from snoc.IH [OF r(1) h] show ?thesis
    proof
      assume a: "set q \<subseteq> closedSet \<and> d (last q) < length q"
      then have lc: "last q \<in> closedSet" using False last_in_set by blast
      have w: "w \<in> closedSet \<union> nodePos ` set openSet" "d w \<le> Suc (d (last q))"
        using A(9) [OF lc r(2)] by auto
      show ?thesis
      proof (cases "w \<in> closedSet")
        case True
        then show ?thesis using a w(2) by simp
      next
        case False
        then have "(q @ [w]) ! length q \<in> nodePos ` set openSet" using w(1) by simp
        moreover have "d ((q @ [w]) ! length q) \<le> length q" using a w(2) by simp
        ultimately show ?thesis by (intro disjI2 exI [of _ "length q"]) simp
      qed
    next
      assume "\<exists>i < length q. q ! i \<in> nodePos ` set openSet \<and> d (q ! i) \<le> i"
      then obtain i where i: "i < length q" "q ! i \<in> nodePos ` set openSet" "d (q ! i) \<le> i"
        by blast
      then have "(q @ [w]) ! i \<in> nodePos ` set openSet \<and> d ((q @ [w]) ! i) \<le> i"
        by (simp add: nth_append)
      then show ?thesis using i(1) by (intro disjI2 exI [of _ i]) simp
    qed
  qed
qed

text \<open>The node with the least \<open>f\<close> of the open set has the least number of steps.\<close>

lemma astar_pop_optimal:
  assumes wf: "wf_grid gr"
    and inv: "astarInv gr start endP d openSet closedSet cameFrom cur {}"
    and c: "c \<in> set openSet" "\<forall>n \<in> set openSet. node_f c \<le> node_f n"
    and q: "route gr q" "hd q = start" "last q = nodePos c"
  shows "d (nodePos c) < length q"
proof (cases "start \<in> closedSet")
  case False
  note A = astarInvD [OF inv]
  have "nodePos c = start" using A(4) False c(1) by blast
  moreover have "q \<noteq> []" using q(1) by auto
  ultimately show ?thesis using A(3) by simp
next
  case True
  note A = astarInvD [OF inv]
  have nc: "nodePos c \<notin> closedSet" using A(2) c(1) by blast
  have "\<not> (set q \<subseteq> closedSet \<and> d (last q) < length q)"
  proof
    assume "set q \<subseteq> closedSet \<and> d (last q) < length q"
    moreover have "q \<noteq> []" using q(1) by auto
    ultimately have "last q \<in> closedSet" using last_in_set by blast
    then show False using q(3) nc by simp
  qed
  then obtain i where i: "i < length q" "q ! i \<in> nodePos ` set openSet" "d (q ! i) \<le> i"
    using astar_frontier_on_route [OF inv q(1,2)] by blast
  obtain n where n: "n \<in> set openSet" "nodePos n = q ! i" using i(2) by auto
  have fn: "node_f n = int (d (q ! i)) + heuristic (q ! i) endP"
    using A(6) [OF n(1)] True n(2) by simp
  have fc: "node_f c = int (d (nodePos c)) + heuristic (nodePos c) endP"
    using A(6) [OF c(1)] True by simp
  have "node_f c \<le> node_f n" using c(2) n(1) by blast
  moreover have "heuristic (q ! i) endP + int i + 1 \<le> heuristic (nodePos c) endP + int (length q)"
    using heuristic_from [OF wf q(1) i(1), of endP] q(3) by simp
  ultimately show ?thesis using fn fc i(3) by linarith
qed

lemma astarInv_chain_closed:
  assumes inv: "astarInv gr start endP d openSet closedSet cameFrom cur todo"
    and u: "u \<in> closedSet"
  shows "\<exists>ps. links cameFrom u ps \<and> hd ps = start \<and> route gr ps \<and> length ps = Suc (d u) \<and>
              set ps \<subseteq> closedSet \<and> last ps = u \<and> ps \<noteq> []"
proof -
  obtain ps where ps: "links cameFrom u ps" "hd ps = start" "route gr ps" "length ps = Suc (d u)"
    "set (butlast ps) \<subseteq> closedSet"
    using astarInvD(5) [OF inv, of u] u by blast
  have l: "ps \<noteq> []" "last ps = u" using links_last [OF ps(1)] by simp_all
  have "set ps \<subseteq> closedSet" using set_butlast_last [OF l(1)] l(2) ps(5) u by simp
  then show ?thesis using ps l by blast
qed

text \<open>A neighbor of a closed point is at most one step farther when it is closed.\<close>

lemma astarInv_closed_neighbor:
  assumes inv: "astarInv gr start endP d openSet closedSet cameFrom cur todo"
    and u: "u \<in> closedSet" and w: "w \<in> closedSet" "w \<in> set (nbrs gr u)"
  shows "d w \<le> Suc (d u)"
proof -
  obtain ps where ps: "hd ps = start" "route gr ps" "length ps = Suc (d u)" "last ps = u"
    "ps \<noteq> []"
    using astarInv_chain_closed [OF inv u] by blast
  have r: "route gr (ps @ [w])" by (rule route_snoc [OF ps(2)]) (use ps(4) w(2) in simp)
  have h: "hd (ps @ [w]) = start" using ps(1,5) by simp
  have "d w < length (ps @ [w])"
    by (rule astarInvD(8) [OF inv w(1) r h]) simp
  then show ?thesis using ps(3) by simp
qed

lemma astarInv_done_neighbor:
  assumes inv: "astarInv gr start endP d openSet closedSet cameFrom cur (insert n todo)"
    and n: "n \<in> closedSet \<union> nodePos ` set openSet" "d n \<le> Suc (d cur)"
  shows "astarInv gr start endP d openSet closedSet cameFrom cur todo"
proof (rule astarInvI)
  note A = astarInvD [OF inv]
  show "(u = cur \<and> w \<in> todo) \<or>
        (w \<in> closedSet \<union> nodePos ` set openSet \<and> d w \<le> Suc (d u))"
    if "u \<in> closedSet" "w \<in> set (nbrs gr u)" for u w
    using A(9) [OF that] n by blast
qed (rule astarInvD [OF inv]; assumption)+

lemma astarInv_relabel:
  assumes inv: "astarInv gr start endP d openSet closedSet cameFrom cur (insert n todo)"
    and cur: "cur \<in> closedSet" "start \<in> closedSet" "n \<in> set (nbrs gr cur)"
    and n: "n \<notin> closedSet" "n \<in> nodePos ` set openSet \<Longrightarrow> Suc (d cur) < d n"
    and os: "distinct (map nodePos openSet')"
      "nodePos ` set openSet' = insert n (nodePos ` set openSet)"
    and nodes: "\<And>m. m \<in> set openSet' \<Longrightarrow>
        node_g m = int ((d(n := Suc (d cur))) (nodePos m)) \<and>
        node_f m = node_g m + heuristic (nodePos m) endP"
  shows "astarInv gr start endP (d(n := Suc (d cur))) openSet' closedSet (cameFrom(n \<mapsto> cur))
           cur todo"
proof (rule astarInvI)
  note A = astarInvD [OF inv]
  let ?d' = "d(n := Suc (d cur))"
  have dc: "?d' u = d u" if "u \<in> closedSet" for u using that n(1) by auto
  show "distinct (map nodePos openSet')" by (rule os(1))
  show "nodePos ` set openSet' \<inter> closedSet = {}" using os(2) A(2) n(1) by auto
  show "?d' start = 0" using dc [OF cur(2)] A(3) by simp
  show "start \<in> closedSet \<or> nodePos ` set openSet' = {start}" using cur(2) by simp
  show "\<exists>ps. links (cameFrom(n \<mapsto> cur)) v ps \<and> hd ps = start \<and> route gr ps \<and>
             length ps = Suc (?d' v) \<and> set (butlast ps) \<subseteq> closedSet"
    if v: "v \<in> closedSet \<union> nodePos ` set openSet'" for v
  proof (cases "v = n")
    case True
    obtain ps where ps: "links cameFrom cur ps" "hd ps = start" "route gr ps"
      "length ps = Suc (d cur)" "set ps \<subseteq> closedSet" "last ps = cur" "ps \<noteq> []"
      using astarInv_chain_closed [OF inv cur(1)] by blast
    have "n \<notin> set ps" using ps(5) n(1) by blast
    then have lc: "links (cameFrom(n \<mapsto> cur)) cur ps" by (rule links_upd [OF ps(1)])
    have "links (cameFrom(n \<mapsto> cur)) n (ps @ [n])" by (rule links.step [OF _ lc]) simp
    moreover have "route gr (ps @ [n])" by (rule route_snoc [OF ps(3)]) (use ps(6) cur(3) in simp)
    moreover have "hd (ps @ [n]) = start" using ps(2,7) by simp
    moreover have "length (ps @ [n]) = Suc (?d' n)" using ps(4) by simp
    moreover have "set (butlast (ps @ [n])) \<subseteq> closedSet" using ps(5) by simp
    ultimately show ?thesis using True by blast
  next
    case False
    then have "v \<in> closedSet \<union> nodePos ` set openSet" using v os(2) by auto
    then obtain ps where ps: "links cameFrom v ps" "hd ps = start" "route gr ps"
      "length ps = Suc (d v)" "set (butlast ps) \<subseteq> closedSet"
      using A(5) by blast
    have l: "ps \<noteq> []" "last ps = v" using links_last [OF ps(1)] by simp_all
    have "n \<notin> set ps" using set_butlast_last [OF l(1)] l(2) ps(5) n(1) False by auto
    then have "links (cameFrom(n \<mapsto> cur)) v ps" by (rule links_upd [OF ps(1)])
    moreover have "length ps = Suc (?d' v)" using ps(4) False by simp
    ultimately show ?thesis using ps(2,3,5) by blast
  qed
  show "node_g m = int (?d' (nodePos m)) \<and>
        (start \<in> closedSet \<longrightarrow> node_f m = node_g m + heuristic (nodePos m) endP)"
    if "m \<in> set openSet'" for m
    using nodes [OF that] by simp
  show "u \<noteq> endP" if "u \<in> closedSet" for u by (rule A(7) [OF that])
  show "?d' u < length q" if "u \<in> closedSet" "route gr q" "hd q = start" "last q = u" for u q
    using A(8) [OF that] dc [OF that(1)] by simp
  show "(u = cur \<and> w \<in> todo) \<or>
        (w \<in> closedSet \<union> nodePos ` set openSet' \<and> ?d' w \<le> Suc (?d' u))"
    if uw: "u \<in> closedSet" "w \<in> set (nbrs gr u)" for u w
  proof (cases "w = n")
    case True
    have "Suc (d cur) \<le> Suc (d u)"
    proof (cases "u = cur")
      case False
      then have "n \<in> closedSet \<union> nodePos ` set openSet \<and> d n \<le> Suc (d u)"
        using A(9) [OF uw] True by blast
      then show ?thesis using n by auto
    qed simp
    then show ?thesis using True os(2) dc [OF uw(1)] by simp
  next
    case False
    then have "(u = cur \<and> w \<in> todo) \<or>
               (w \<in> closedSet \<union> nodePos ` set openSet \<and> d w \<le> Suc (d u))"
      using A(9) [OF uw] by blast
    then show ?thesis using False os(2) dc [OF uw(1)] by auto
  qed
qed

lemma assignExisting_map:
  "distinct (map nodePos ns) \<Longrightarrow>
   assignExisting p newG newF ns =
     map (\<lambda>m. if nodePos m = p then m\<lparr>node_g := newG, node_f := newF\<rparr> else m) ns"
proof (induction ns)
  case Nil
  then show ?case by simp
next
  case (Cons n ns)
  show ?case
  proof (cases "nodePos n = p")
    case True
    then have "\<forall>m \<in> set ns. nodePos m \<noteq> p" using Cons.prems by (auto simp: image_iff)
    then have "map (\<lambda>m. if nodePos m = p then m\<lparr>node_g := newG, node_f := newF\<rparr> else m) ns = ns"
      by (intro map_idI) simp
    then show ?thesis using True by (auto simp: nodePos_def)
  next
    case False
    then show ?thesis using Cons by (auto simp: nodePos_def)
  qed
qed

lemma nodePos_assign: "nodePos (m\<lparr>node_g := a, node_f := b\<rparr>) = nodePos m"
  by (simp add: nodePos_def)

lemma map_nodePos_assignExisting:
  "map nodePos (assignExisting p newG newF ns) = map nodePos ns"
  by (induction ns) (auto simp: nodePos_def)

lemma find_pos_Some:
  "find (\<lambda>m. node_x m = fst p \<and> node_y m = snd p) ns = Some e \<Longrightarrow> e \<in> set ns \<and> nodePos e = p"
  by (induction ns) (auto simp: nodePos_def split: if_splits)

text \<open>One neighbor of the loop of runAStar.\<close>

lemma astarInv_neighbor:
  assumes inv: "astarInv gr start endP d openSet closedSet cameFrom cur (insert n todo)"
    and cur: "cur \<in> closedSet" "start \<in> closedSet" "n \<in> set (nbrs gr cur)"
    and c: "nodePos c = cur" "node_g c = int (d cur)"
  shows "\<exists>openSet' cameFrom' d'.
           astarNeighbors endP c closedSet (n # ns) (openSet, cameFrom)
             = astarNeighbors endP c closedSet ns (openSet', cameFrom') \<and>
           astarInv gr start endP d' openSet' closedSet cameFrom' cur todo \<and> d' cur = d cur"
proof (cases "n \<in> closedSet")
  case True
  have "d n \<le> Suc (d cur)"
    by (rule astarInv_closed_neighbor [OF inv cur(1) True cur(3)])
  then have "astarInv gr start endP d openSet closedSet cameFrom cur todo"
    using True by (intro astarInv_done_neighbor [OF inv]) simp_all
  moreover have "astarNeighbors endP c closedSet (n # ns) (openSet, cameFrom)
                   = astarNeighbors endP c closedSet ns (openSet, cameFrom)"
    using True by simp
  ultimately show ?thesis by blast
next
  case nc: False
  note A = astarInvD [OF inv]
  let ?t = "node_g c + 1"
  let ?h = "heuristic n endP"
  let ?d' = "d(n := Suc (d cur))"
  have t: "?t = int (Suc (d cur))" using c(2) by simp
  have dcur: "?d' cur = d cur" using nc cur(1) by auto
  show ?thesis
  proof (cases "find (\<lambda>m. node_x m = fst n \<and> node_y m = snd n) openSet")
    case None
    define new where
      "new = \<lparr>node_x = fst n, node_y = snd n, node_f = ?t + ?h, node_g = ?t, node_h = ?h\<rparr>"
    have nn: "n \<notin> nodePos ` set openSet" using None by (simp add: find_None_pos)
    have pn: "nodePos new = n" "node_g new = int (Suc (d cur))"
      "node_f new = node_g new + heuristic n endP"
      using t by (simp_all add: nodePos_def new_def)
    have "astarInv gr start endP ?d' (openSet @ [new]) closedSet (cameFrom(n \<mapsto> cur)) cur todo"
    proof (rule astarInv_relabel [OF inv cur nc])
      show "Suc (d cur) < d n" if "n \<in> nodePos ` set openSet" using that nn by simp
      show "distinct (map nodePos (openSet @ [new]))" using A(1) nn pn(1) by simp
      show "nodePos ` set (openSet @ [new]) = insert n (nodePos ` set openSet)"
        using pn(1) by simp
      show "node_g m = int (?d' (nodePos m)) \<and>
            node_f m = node_g m + heuristic (nodePos m) endP" if m: "m \<in> set (openSet @ [new])" for m
      proof (cases "m = new")
        case True
        then show ?thesis using pn by simp
      next
        case False
        then have mo: "m \<in> set openSet" using m by simp
        then have "nodePos m \<noteq> n" using nn by blast
        then show ?thesis using A(6) [OF mo] cur(2) by simp
      qed
    qed
    moreover have "astarNeighbors endP c closedSet (n # ns) (openSet, cameFrom)
                     = astarNeighbors endP c closedSet ns (openSet @ [new], cameFrom(n \<mapsto> cur))"
      using nc None c(1) by (simp add: Let_def new_def)
    ultimately show ?thesis using dcur by blast
  next
    case (Some e)
    have e: "e \<in> set openSet" "nodePos e = n" using find_pos_Some [OF Some] by simp_all
    have ge: "node_g e = int (d n)" using A(6) [OF e(1)] e(2) by simp
    show ?thesis
    proof (cases "?t < node_g e")
      case True
      let ?os = "assignExisting n ?t (?t + ?h) openSet"
      have lt: "Suc (d cur) < d n" using True ge t by simp
      have osm: "?os = map (\<lambda>m. if nodePos m = n then m\<lparr>node_g := ?t, node_f := ?t + ?h\<rparr> else m)
                         openSet"
        by (rule assignExisting_map [OF A(1)])
      have "astarInv gr start endP ?d' ?os closedSet (cameFrom(n \<mapsto> cur)) cur todo"
      proof (rule astarInv_relabel [OF inv cur nc])
        show "Suc (d cur) < d n" by (rule lt)
        show "distinct (map nodePos ?os)" using A(1) by (simp add: map_nodePos_assignExisting)
        show "nodePos ` set ?os = insert n (nodePos ` set openSet)"
          using e by (auto simp: set_assignExisting_pos)
        show "node_g m = int (?d' (nodePos m)) \<and>
              node_f m = node_g m + heuristic (nodePos m) endP" if m: "m \<in> set ?os" for m
        proof -
          obtain m0 where m0: "m0 \<in> set openSet"
            "m = (if nodePos m0 = n then m0\<lparr>node_g := ?t, node_f := ?t + ?h\<rparr> else m0)"
            using m unfolding osm by auto
          show ?thesis
          proof (cases "nodePos m0 = n")
            case True
            then show ?thesis using m0(2) t by (simp add: nodePos_assign)
          next
            case False
            then show ?thesis using m0 A(6) [OF m0(1)] cur(2) by simp
          qed
        qed
      qed
      moreover have "astarNeighbors endP c closedSet (n # ns) (openSet, cameFrom)
                       = astarNeighbors endP c closedSet ns (?os, cameFrom(n \<mapsto> cur))"
        using nc Some True c(1) by (simp add: Let_def)
      ultimately show ?thesis using dcur by blast
    next
      case False
      then have "d n \<le> Suc (d cur)" using ge t by simp
      moreover have "n \<in> closedSet \<union> nodePos ` set openSet" using e by auto
      ultimately have "astarInv gr start endP d openSet closedSet cameFrom cur todo"
        by (intro astarInv_done_neighbor [OF inv])
      moreover have "astarNeighbors endP c closedSet (n # ns) (openSet, cameFrom)
                       = astarNeighbors endP c closedSet ns (openSet, cameFrom)"
        using nc Some False by (simp add: Let_def)
      ultimately show ?thesis by blast
    qed
  qed
qed

lemma astarInv_neighbors:
  "astarInv gr start endP d openSet closedSet cameFrom cur (set ns) \<Longrightarrow>
   cur \<in> closedSet \<Longrightarrow> start \<in> closedSet \<Longrightarrow> set ns \<subseteq> set (nbrs gr cur) \<Longrightarrow>
   nodePos c = cur \<Longrightarrow> node_g c = int (d cur) \<Longrightarrow>
   \<exists>openSet' cameFrom' d'.
     astarNeighbors endP c closedSet ns (openSet, cameFrom) = (openSet', cameFrom') \<and>
     astarInv gr start endP d' openSet' closedSet cameFrom' cur {}"
proof (induction ns arbitrary: openSet cameFrom d)
  case Nil
  then show ?case by auto
next
  case (Cons n ns)
  have inv: "astarInv gr start endP d openSet closedSet cameFrom cur (insert n (set ns))"
    using Cons.prems(1) by simp
  have n: "n \<in> set (nbrs gr cur)" using Cons.prems(4) by simp
  obtain os1 cf1 d1 where s:
    "astarNeighbors endP c closedSet (n # ns) (openSet, cameFrom)
       = astarNeighbors endP c closedSet ns (os1, cf1)"
    "astarInv gr start endP d1 os1 closedSet cf1 cur (set ns)" "d1 cur = d cur"
    using astarInv_neighbor [OF inv Cons.prems(2,3) n Cons.prems(5,6)] by blast
  have "\<exists>openSet' cameFrom' d'.
     astarNeighbors endP c closedSet ns (os1, cf1) = (openSet', cameFrom') \<and>
     astarInv gr start endP d' openSet' closedSet cameFrom' cur {}"
    by (rule Cons.IH [OF s(2) Cons.prems(2,3) _ Cons.prems(5)])
      (use Cons.prems(4,6) s(3) in simp_all)
  then show ?case unfolding s(1) .
qed

lemma distinct_map_insort:
  "distinct (map f (insort_key k x xs)) \<longleftrightarrow> f x \<notin> f ` set xs \<and> distinct (map f xs)"
  by (induction xs) (auto simp: set_insort_key)

lemma distinct_map_sort: "distinct (map f (sort_key k xs)) \<longleftrightarrow> distinct (map f xs)"
  by (induction xs) (simp_all add: distinct_map_insort)

lemma nodePos_eq: "node_x n = fst p \<and> node_y n = snd p \<longleftrightarrow> nodePos n = p"
  by (auto simp: nodePos_def)

lemma astarInv_pop:
  assumes wf: "wf_grid gr"
    and inv: "astarInv gr start endP d openSet closedSet cameFrom cur0 {}"
    and s: "sort_key node_f openSet = c # rest" and ne: "nodePos c \<noteq> endP"
  shows "astarInv gr start endP d rest (insert (nodePos c) closedSet) cameFrom (nodePos c)
           (set (nbrs gr (nodePos c))) \<and>
         node_g c = int (d (nodePos c)) \<and> start \<in> insert (nodePos c) closedSet"
proof -
  note A = astarInvD [OF inv]
  note S = sort_key_Cons [OF s]
  have os: "set openSet = insert c (set rest)" using S by simp
  have cin: "c \<in> set openSet" using os by simp
  have mn: "\<forall>n \<in> set openSet. node_f c \<le> node_f n" using S os by auto
  have "distinct (map nodePos (sort_key node_f openSet))" using A(1) by (simp add: distinct_map_sort)
  then have dist: "nodePos c \<notin> nodePos ` set rest" "distinct (map nodePos rest)"
    unfolding s by simp_all
  have pos: "nodePos ` set openSet = insert (nodePos c) (nodePos ` set rest)" using os by simp
  have st: "start \<in> insert (nodePos c) closedSet"
  proof (cases "start \<in> closedSet")
    case False
    then have "nodePos ` set openSet = {start}" using A(4) by simp
    moreover have "nodePos c \<in> nodePos ` set openSet" using cin by simp
    ultimately show ?thesis by simp
  qed simp
  have g: "node_g c = int (d (nodePos c))" using A(6) [OF cin] by simp
  have "astarInv gr start endP d rest (insert (nodePos c) closedSet) cameFrom (nodePos c)
          (set (nbrs gr (nodePos c)))"
  proof (rule astarInvI)
    show "distinct (map nodePos rest)" by (rule dist(2))
    show "nodePos ` set rest \<inter> insert (nodePos c) closedSet = {}"
      using A(2) dist(1) pos by auto
    show "d start = 0" by (rule A(3))
    show "start \<in> insert (nodePos c) closedSet \<or> nodePos ` set rest = {start}" using st by simp
    show "\<exists>ps. links cameFrom v ps \<and> hd ps = start \<and> route gr ps \<and> length ps = Suc (d v) \<and>
               set (butlast ps) \<subseteq> insert (nodePos c) closedSet"
      if "v \<in> insert (nodePos c) closedSet \<union> nodePos ` set rest" for v
    proof -
      have "v \<in> closedSet \<union> nodePos ` set openSet" using that pos by auto
      then obtain ps where "links cameFrom v ps" "hd ps = start" "route gr ps"
        "length ps = Suc (d v)" "set (butlast ps) \<subseteq> closedSet"
        using A(5) by blast
      then show ?thesis by blast
    qed
    show "node_g n = int (d (nodePos n)) \<and>
          (start \<in> insert (nodePos c) closedSet \<longrightarrow>
             node_f n = node_g n + heuristic (nodePos n) endP)" if n: "n \<in> set rest" for n
    proof -
      have no: "n \<in> set openSet" using n os by simp
      have "start \<in> closedSet"
      proof (rule ccontr)
        assume "start \<notin> closedSet"
        then have "nodePos ` set openSet = {start}" using A(4) by simp
        moreover have "nodePos n \<in> nodePos ` set openSet" "nodePos c \<in> nodePos ` set openSet"
          using no cin by simp_all
        ultimately have "nodePos n = nodePos c" by simp
        then show False using dist(1) n by (metis imageI)
      qed
      then show ?thesis using A(6) [OF no] by simp
    qed
    show "u \<noteq> endP" if "u \<in> insert (nodePos c) closedSet" for u
      using that ne A(7) [of u] by blast
    show "d u < length q"
      if u: "u \<in> insert (nodePos c) closedSet" and q: "route gr q" "hd q = start" "last q = u"
      for u q
    proof (cases "u = nodePos c")
      case True
      then show ?thesis using astar_pop_optimal [OF wf inv cin mn q(1,2)] q(3) by simp
    next
      case False
      then have "u \<in> closedSet" using u by simp
      then show ?thesis using A(8) q by blast
    qed
    show "(u = nodePos c \<and> w \<in> set (nbrs gr (nodePos c))) \<or>
          (w \<in> insert (nodePos c) closedSet \<union> nodePos ` set rest \<and> d w \<le> Suc (d u))"
      if u: "u \<in> insert (nodePos c) closedSet" and w: "w \<in> set (nbrs gr u)" for u w
    proof (cases "u = nodePos c")
      case True
      then show ?thesis using w by simp
    next
      case False
      then have uc: "u \<in> closedSet" using u by simp
      have "w \<in> closedSet \<union> nodePos ` set openSet \<and> d w \<le> Suc (d u)"
        using A(9) [OF uc w] by simp
      then show ?thesis using pos by auto
    qed
  qed
  then show ?thesis using g st by blast
qed

lemma astarInv_found:
  assumes wf: "wf_grid gr"
    and inv: "astarInv gr start endP d openSet closedSet cameFrom cur0 {}"
    and s: "sort_key node_f openSet = c # rest"
  shows "\<exists>ps. returnPath cameFrom (nodePos c) n = Returned \<lparr>path = ps, exploredCount = n\<rparr> \<and>
              shortest gr start (nodePos c) ps"
proof -
  note A = astarInvD [OF inv]
  note S = sort_key_Cons [OF s]
  have os: "set openSet = insert c (set rest)" using S by simp
  have cin: "c \<in> set openSet" using os by simp
  have mn: "\<forall>n \<in> set openSet. node_f c \<le> node_f n" using S os by auto
  obtain ps where ps: "links cameFrom (nodePos c) ps" "hd ps = start" "route gr ps"
    "length ps = Suc (d (nodePos c))"
    using A(5) [of "nodePos c"] cin by blast
  have l: "last ps = nodePos c" using links_last [OF ps(1)] by simp
  have "routeBetween gr start (nodePos c) ps" using ps l by (simp add: routeBetween_def)
  moreover have "length ps \<le> length q" if "routeBetween gr start (nodePos c) q" for q
  proof -
    have "route gr q" "hd q = start" "last q = nodePos c"
      using that by (simp_all add: routeBetween_def)
    then have "d (nodePos c) < length q" by (rule astar_pop_optimal [OF wf inv cin mn])
    then show ?thesis using ps(4) by simp
  qed
  ultimately have "shortest gr start (nodePos c) ps" by (simp add: shortest_def)
  then show ?thesis using returnPath_links [OF ps(1), of n] by blast
qed

lemma astarInv_exhausted:
  assumes inv: "astarInv gr start endP d [] closedSet cameFrom cur0 {}"
  shows "\<not> routeBetween gr start endP q"
proof
  assume q: "routeBetween gr start endP q"
  note A = astarInvD [OF inv]
  have s: "start \<in> closedSet" using A(4) by simp
  have c: "\<forall>u \<in> closedSet. set (nbrs gr u) \<subseteq> closedSet"
    using A(9) by auto
  have r: "route gr q" "hd q = start" "last q = endP" using q by (simp_all add: routeBetween_def)
  have "set q \<subseteq> closedSet" using route_closed [OF c r(1)] r(2) s by simp
  moreover have "q \<noteq> []" using r(1) by auto
  ultimately have "endP \<in> closedSet" using r(3) last_in_set [of q] by auto
  then show False using A(7) by blast
qed

lemma astarInv_initial:
  "astarInv gr start endP (\<lambda>v. 0)
     [\<lparr>node_x = fst start, node_y = snd start, node_f = 0, node_g = 0,
       node_h = heuristic start endP\<rparr>] {} Map.empty cur0 {}"
proof (rule astarInvI)
  let ?n = "\<lparr>node_x = fst start, node_y = snd start, node_f = 0, node_g = 0,
             node_h = heuristic start endP\<rparr>"
  have p: "nodePos ?n = start" by (simp add: nodePos_def)
  show "start \<in> {} \<or> nodePos ` set [?n] = {start}" using p by simp
  show "\<exists>ps. links Map.empty v ps \<and> hd ps = start \<and> route gr ps \<and> length ps = Suc 0 \<and>
             set (butlast ps) \<subseteq> {}" if "v \<in> {} \<union> nodePos ` set [?n]" for v
    using that p by (intro exI [of _ "[start]"]) (simp add: links.root)
  show "node_g n = int 0 \<and> (start \<in> {} \<longrightarrow> node_f n = node_g n + heuristic (nodePos n) endP)"
    if "n \<in> set [?n]" for n using that by simp
qed simp_all

lemma astarLoop_searched:
  "wf_grid gr \<Longrightarrow> astarInv gr start endP d openSet closedSet cameFrom cur0 {} \<Longrightarrow>
   0 \<le> count \<Longrightarrow>
   \<exists>r. astarLoop gr endP openSet closedSet cameFrom count = Returned r \<and>
       searched gr start endP r \<and> (path r \<noteq> [] \<longrightarrow> shortest gr start endP (path r))"
proof (induction gr endP openSet closedSet cameFrom count arbitrary: d cur0 rule: astarLoop.induct)
  case (1 gr endP openSet closedSet cameFrom count)
  note wf = "1.prems"(1) and inv = "1.prems"(2) and cnt = "1.prems"(3)
  show ?case
  proof (cases "sort_key node_f openSet")
    case Nil
    then have "openSet = []" by (metis length_0_conv length_sort)
    then have "\<forall>q. \<not> routeBetween gr start endP q"
      using astarInv_exhausted inv by blast
    moreover have "astarLoop gr endP openSet closedSet cameFrom count
                     = Returned \<lparr>path = [], exploredCount = count\<rparr>"
      using Nil by (subst astarLoop.simps) simp
    ultimately show ?thesis using cnt by (simp add: searched_def)
  next
    case (Cons c rest)
    show ?thesis
    proof (cases "nodePos c = endP")
      case True
      obtain ps where ps: "returnPath cameFrom (nodePos c) count
                             = Returned \<lparr>path = ps, exploredCount = count\<rparr>"
        "shortest gr start (nodePos c) ps"
        using astarInv_found [OF wf inv Cons] by blast
      have "searched gr start endP \<lparr>path = ps, exploredCount = count\<rparr>"
        using ps(2) True cnt by (simp add: searched_def shortest_def)
      moreover have "astarLoop gr endP openSet closedSet cameFrom count
                       = Returned \<lparr>path = ps, exploredCount = count\<rparr>"
        using Cons True ps(1) by (subst astarLoop.simps) (simp add: nodePos_eq)
      ultimately show ?thesis using ps(2) True by simp
    next
      case False
      let ?cur = "nodePos c"
      let ?closed' = "insert ?cur closedSet"
      have ne: "\<not> (node_x c = fst endP \<and> node_y c = snd endP)" using False by (simp add: nodePos_eq)
      have gn: "getNeighbors ?cur gr = Inr (nbrs gr ?cur)" by (rule getNeighbors_nbrs [OF wf])
      have pop: "astarInv gr start endP d rest ?closed' cameFrom ?cur (set (nbrs gr ?cur))"
        "node_g c = int (d ?cur)" "start \<in> ?closed'"
        using astarInv_pop [OF wf inv Cons False] by simp_all
      obtain openSet' cameFrom' d' where
        an: "astarNeighbors endP c ?closed' (nbrs gr ?cur) (rest, cameFrom) = (openSet', cameFrom')"
        and inv': "astarInv gr start endP d' openSet' ?closed' cameFrom' ?cur {}"
        using astarInv_neighbors [OF pop(1) _ pop(3) _ refl pop(2)] by auto
      have "\<exists>r. astarLoop gr endP openSet' ?closed' cameFrom' (count + 1) = Returned r \<and>
                 searched gr start endP r \<and> (path r \<noteq> [] \<longrightarrow> shortest gr start endP (path r))"
        using cnt
        by (intro "1.IH" [OF Cons ne refl refl gn an [symmetric] wf inv']) simp
      moreover have "astarLoop gr endP openSet closedSet cameFrom count
                       = astarLoop gr endP openSet' ?closed' cameFrom' (count + 1)"
        using Cons False gn an by (subst astarLoop.simps) (simp add: Let_def nodePos_eq)
      ultimately show ?thesis by simp
    qed
  qed
qed

lemma runAStar_searched:
  assumes "wf_grid gr"
  shows "\<exists>r. runAStar gr start endP = Returned r \<and> searched gr start endP r \<and>
             (path r \<noteq> [] \<longrightarrow> shortest gr start endP (path r))"
  unfolding runAStar_def
  by (rule astarLoop_searched [OF assms astarInv_initial]) simp

section \<open>The explored count is bounded by the number of cells\<close>














section \<open>The four searches on a snapshot grid\<close>

text \<open>Routes of the generated grid and of the grid with two pockets.\<close>

lemma route_last_traversable:
  assumes "wf_grid gr"
  shows "route gr q \<Longrightarrow> hd q \<noteq> last q \<Longrightarrow> traversable gr (last q)"
proof (induction q rule: rev_induct)
  case Nil
  then show ?case by simp
next
  case (snoc w q)
  have ne: "q \<noteq> []" using snoc.prems(2) by auto
  have "w \<in> set (nbrs gr (last q))" using route_butlast [OF snoc.prems(1) ne] by simp
  then have "w \<in> {p \<in> set [(fst (last q), snd (last q) + 1), (fst (last q) + 1, snd (last q)),
        (fst (last q), snd (last q) - 1), (fst (last q) - 1, snd (last q))]. traversable gr p}"
    unfolding nbrs_wf [OF assms] set_filter .
  then show ?case by simp
qed

lemma traversable_initializeCityGrid:
  assumes "p \<in> cells"
  shows "traversable initializeCityGrid p \<longleftrightarrow> carvingRule (nat (fst p)) (nat (snd p))"
proof -
  have "nat (fst p) < GRID_COLS" "nat (snd p) < GRID_ROWS" using assms by (auto simp: cells_def)
  then show ?thesis
    using assms by (simp add: traversable_def cellAt_initializeCityGrid asRoad_def wallCell_def)
qed

lemma demo_route: "routeBetween initializeCityGrid (10, 8) (12, 8) [(10, 8), (11, 8), (12, 8)]"
proof -
  have c: "(11, 8) \<in> cells" "(12, 8) \<in> cells"
    by (simp_all add: cells_def GRID_ROWS_def GRID_COLS_def)
  have t: "traversable initializeCityGrid (11, 8)" "traversable initializeCityGrid (12, 8)"
    using c by (simp_all add: traversable_initializeCityGrid carvingRule_def)
  show ?thesis
    using t by (simp add: routeBetween_def nbrs_wf [OF wf_initializeCityGrid])
qed

lemma demo_no_route: "\<not> routeBetween initializeCityGrid (10, 8) (0, 0) q"
proof
  assume q: "routeBetween initializeCityGrid (10, 8) (0, 0) q"
  then have "route initializeCityGrid q" "hd q \<noteq> last q" by (simp_all add: routeBetween_def)
  then have "traversable initializeCityGrid (last q)"
    by (rule route_last_traversable [OF wf_initializeCityGrid])
  moreover have "(0, 0) \<in> cells" by (simp add: cells_def GRID_ROWS_def GRID_COLS_def)
  ultimately show False
    using q by (simp add: routeBetween_def traversable_initializeCityGrid carvingRule_def)
qed

lemma wf_setRoad: "wf_grid gr \<Longrightarrow> wf_grid (setRoad gr y x)"
proof (cases "y < length gr \<and> x < length (gr ! y)")
  case True
  have "set (gr[y := (gr ! y)[x := asRoad (gr ! y ! x)]])
          \<subseteq> insert ((gr ! y)[x := asRoad (gr ! y ! x)]) (set gr)"
    by (rule set_update_subset_insert)
  moreover have "length ((gr ! y)[x := asRoad (gr ! y ! x)]) = GRID_COLS"
    if "wf_grid gr" using that True by (simp add: wf_grid_def)
  ultimately show "wf_grid gr \<Longrightarrow> wf_grid (setRoad gr y x)"
    using True unfolding wf_grid_def setRoad_def by auto
next
  case False
  then show "wf_grid gr \<Longrightarrow> wf_grid (setRoad gr y x)" by (auto simp: setRoad_def)
qed

lemma wf_pocketGrid: "wf_grid pocketGrid"
  unfolding pocketGrid_def by (intro wf_setRoad) (simp add: wf_grid_def)

lemma cellAt_pocketGrid:
  "x < GRID_COLS \<Longrightarrow> y < GRID_ROWS \<Longrightarrow>
   cellAt pocketGrid x y = Some (if y = 8 \<and> (x = 10 \<or> x = 20) then asRoad wallCell else wallCell)"
  by (simp add: pocketGrid_def cellAt_def setRoad_def nth_list_update GRID_ROWS_def GRID_COLS_def)

lemma traversable_pocketGrid: "traversable pocketGrid p \<longleftrightarrow> p = (10, 8) \<or> p = (20, 8)"
proof (cases "p \<in> cells")
  case True
  obtain x y where p: "p = (x, y)" by (cases p)
  have b: "nat x < GRID_COLS" "nat y < GRID_ROWS" "0 \<le> x" "0 \<le> y"
    using True by (auto simp: p cells_def)
  have n: "nat x = 10 \<longleftrightarrow> x = 10" "nat x = 20 \<longleftrightarrow> x = 20" "nat y = 8 \<longleftrightarrow> y = 8"
    using b(3,4) by auto
  show ?thesis
    using True unfolding p
    by (auto simp: traversable_def cellAt_pocketGrid [OF b(1,2)] asRoad_def wallCell_def n)
next
  case False
  then show ?thesis by (auto simp: traversable_def cells_def GRID_ROWS_def GRID_COLS_def)
qed

lemma route_isolated:
  assumes "nbrs gr start = []" and "routeBetween gr start endP q"
  shows "endP = start"
proof (cases q)
  case Nil
  then show ?thesis using assms(2) by (simp add: routeBetween_def)
next
  case (Cons a ps)
  then show ?thesis using assms by (cases ps) (auto simp: routeBetween_def)
qed

lemma pocket_no_route: "\<not> routeBetween pocketGrid (10, 8) (20, 8) q"
proof
  assume q: "routeBetween pocketGrid (10, 8) (20, 8) q"
  have "nbrs pocketGrid (10, 8) = []"
    by (simp add: nbrs_wf [OF wf_pocketGrid] traversable_pocketGrid)
  from route_isolated [OF this q] show False by simp
qed

text \<open>
  C1. On a grid of \<open>GRID_ROWS\<close> rows of \<open>GRID_COLS\<close> cells, with \<open>start\<close> a cell of the
  grid and a route from \<open>start\<close> to \<open>endP\<close>, \<open>runBFS\<close>, \<open>runDijkstra\<close> and \<open>runAStar\<close> each
  return a route from \<open>start\<close> to \<open>endP\<close> that no route is shorter than (counted in
  cells), so the three have the same length; \<open>runDFS\<close> returns a route from \<open>start\<close> to
  \<open>endP\<close>, which is at least that long.
\<close>

theorem searches_shortest:
  assumes "wf_grid gr" and "start \<in> cells" and "routeBetween gr start endP q"
  shows "\<exists>bfs dijkstra astar dfs nb nk na nd.
           runBFS gr start endP = Returned \<lparr>path = bfs, exploredCount = nb\<rparr> \<and>
           runDijkstra gr start endP = Returned \<lparr>path = dijkstra, exploredCount = nk\<rparr> \<and>
           runAStar gr start endP = Returned \<lparr>path = astar, exploredCount = na\<rparr> \<and>
           runDFS gr start endP = Returned \<lparr>path = dfs, exploredCount = nd\<rparr> \<and>
           shortest gr start endP bfs \<and> shortest gr start endP dijkstra \<and>
           shortest gr start endP astar \<and>
           length bfs = length dijkstra \<and> length dijkstra = length astar \<and>
           routeBetween gr start endP dfs \<and> length bfs \<le> length dfs"
proof -
  have rd: "rowDefined start" by (rule cells_rowDefined [OF assms(2)])
  obtain rb where b: "runBFS gr start endP = Returned rb" "searched gr start endP rb"
    "path rb \<noteq> [] \<longrightarrow> shortest gr start endP (path rb)"
    using runBFS_searched [OF assms(1)] by blast
  obtain rk where k: "runDijkstra gr start endP = Returned rk" "searched gr start endP rk"
    "path rk \<noteq> [] \<longrightarrow> shortest gr start endP (path rk)"
    using runDijkstra_searched [OF assms(1) rd] by blast
  obtain ra where a: "runAStar gr start endP = Returned ra" "searched gr start endP ra"
    "path ra \<noteq> [] \<longrightarrow> shortest gr start endP (path ra)"
    using runAStar_searched [OF assms(1)] by blast
  obtain rf where f: "runDFS gr start endP = Returned rf" "searched gr start endP rf"
    using runDFS_searched [OF assms(1)] by blast
  have found: "routeBetween gr start endP (path r) \<and> path r \<noteq> []"
    if "searched gr start endP r" for r
    using that assms(3) by (auto simp: searched_def routeBetween_def)
  have sb: "shortest gr start endP (path rb)" using b(3) found [OF b(2)] by simp
  have sk: "shortest gr start endP (path rk)" using k(3) found [OF k(2)] by simp
  have sa: "shortest gr start endP (path ra)" using a(3) found [OF a(2)] by simp
  have df: "routeBetween gr start endP (path rf)" using found [OF f(2)] by simp
  have eq: "length xs = length ys"
    if "shortest gr start endP xs" "shortest gr start endP ys" for xs ys
    using that by (simp add: shortest_def le_antisym)
  have "length (path rb) \<le> length (path rf)" using sb df by (simp add: shortest_def)
  moreover have "rb = \<lparr>path = path rb, exploredCount = exploredCount rb\<rparr>"
    "rk = \<lparr>path = path rk, exploredCount = exploredCount rk\<rparr>"
    "ra = \<lparr>path = path ra, exploredCount = exploredCount ra\<rparr>"
    "rf = \<lparr>path = path rf, exploredCount = exploredCount rf\<rparr>"
    by simp_all
  ultimately show ?thesis
    using b(1) k(1) a(1) f(1) sb sk sa df eq [OF sb sk] eq [OF sk sa] by metis
qed

theorem searches_shortest_witness:
  "wf_grid initializeCityGrid \<and> (10, 8) \<in> cells \<and>
   routeBetween initializeCityGrid (10, 8) (12, 8) [(10, 8), (11, 8), (12, 8)] \<and>
   (\<exists>bfs dijkstra astar dfs nb nk na nd.
      runBFS initializeCityGrid (10, 8) (12, 8) = Returned \<lparr>path = bfs, exploredCount = nb\<rparr> \<and>
      runDijkstra initializeCityGrid (10, 8) (12, 8)
        = Returned \<lparr>path = dijkstra, exploredCount = nk\<rparr> \<and>
      runAStar initializeCityGrid (10, 8) (12, 8) = Returned \<lparr>path = astar, exploredCount = na\<rparr> \<and>
      runDFS initializeCityGrid (10, 8) (12, 8) = Returned \<lparr>path = dfs, exploredCount = nd\<rparr> \<and>
      length bfs \<le> 3 \<and> length dijkstra = length bfs \<and> length astar = length bfs \<and>
      length bfs \<le> length dfs)"
proof -
  have c: "(10, 8) \<in> cells" by (simp add: cells_def GRID_ROWS_def GRID_COLS_def)
  obtain bfs dijkstra astar dfs nb nk na nd where r:
    "runBFS initializeCityGrid (10, 8) (12, 8) = Returned \<lparr>path = bfs, exploredCount = nb\<rparr>"
    "runDijkstra initializeCityGrid (10, 8) (12, 8)
       = Returned \<lparr>path = dijkstra, exploredCount = nk\<rparr>"
    "runAStar initializeCityGrid (10, 8) (12, 8) = Returned \<lparr>path = astar, exploredCount = na\<rparr>"
    "runDFS initializeCityGrid (10, 8) (12, 8) = Returned \<lparr>path = dfs, exploredCount = nd\<rparr>"
    "shortest initializeCityGrid (10, 8) (12, 8) bfs"
    "length bfs = length dijkstra" "length dijkstra = length astar" "length bfs \<le> length dfs"
    using searches_shortest [OF wf_initializeCityGrid c demo_route] by blast
  have "length bfs \<le> length [(10, 8), (11, 8), (12, 8) :: point]"
    using r(5) demo_route unfolding shortest_def by blast
  then have "length bfs \<le> 3" by simp
  then have "\<exists>bfs dijkstra astar dfs nb nk na nd.
      runBFS initializeCityGrid (10, 8) (12, 8) = Returned \<lparr>path = bfs, exploredCount = nb\<rparr> \<and>
      runDijkstra initializeCityGrid (10, 8) (12, 8)
        = Returned \<lparr>path = dijkstra, exploredCount = nk\<rparr> \<and>
      runAStar initializeCityGrid (10, 8) (12, 8) = Returned \<lparr>path = astar, exploredCount = na\<rparr> \<and>
      runDFS initializeCityGrid (10, 8) (12, 8) = Returned \<lparr>path = dfs, exploredCount = nd\<rparr> \<and>
      length bfs \<le> 3 \<and> length dijkstra = length bfs \<and> length astar = length bfs \<and>
      length bfs \<le> length dfs"
    using r(1-4,6-8) by metis
  then show ?thesis
    using wf_initializeCityGrid c demo_route by simp
qed

text \<open>
  C5. When there is no route from \<open>start\<close> to \<open>endP\<close>, each of the four searches returns
  (it does not throw) the empty path with an explored count that is not negative.
\<close>

theorem searches_no_route:
  assumes "wf_grid gr" and "start \<in> cells" and "\<forall>q. \<not> routeBetween gr start endP q"
  shows "\<exists>nd nb na nk.
           runDFS gr start endP = Returned \<lparr>path = [], exploredCount = nd\<rparr> \<and>
           runBFS gr start endP = Returned \<lparr>path = [], exploredCount = nb\<rparr> \<and>
           runAStar gr start endP = Returned \<lparr>path = [], exploredCount = na\<rparr> \<and>
           runDijkstra gr start endP = Returned \<lparr>path = [], exploredCount = nk\<rparr> \<and>
           0 \<le> nd \<and> 0 \<le> nb \<and> 0 \<le> na \<and> 0 \<le> nk"
proof -
  have rd: "rowDefined start" by (rule cells_rowDefined [OF assms(2)])
  have none: "r = \<lparr>path = [], exploredCount = exploredCount r\<rparr> \<and> 0 \<le> exploredCount r"
    if "searched gr start endP r" for r
    using that assms(3) by (simp add: searched_def)
  obtain rf where f: "runDFS gr start endP = Returned rf" "searched gr start endP rf"
    using runDFS_searched [OF assms(1)] by blast
  obtain rb where b: "runBFS gr start endP = Returned rb" "searched gr start endP rb"
    using runBFS_searched [OF assms(1)] by blast
  obtain ra where a: "runAStar gr start endP = Returned ra" "searched gr start endP ra"
    using runAStar_searched [OF assms(1)] by blast
  obtain rk where k: "runDijkstra gr start endP = Returned rk" "searched gr start endP rk"
    using runDijkstra_searched [OF assms(1) rd] by blast
  show ?thesis
    using f(1) b(1) a(1) k(1) none [OF f(2)] none [OF b(2)] none [OF a(2)] none [OF k(2)]
    by metis
qed

theorem searches_no_route_witness:
  "wf_grid pocketGrid \<and> (10, 8) \<in> cells \<and> traversable pocketGrid (10, 8) \<and>
   traversable pocketGrid (20, 8) \<and> (\<forall>q. \<not> routeBetween pocketGrid (10, 8) (20, 8) q) \<and>
   (\<exists>nd nb na nk.
      runDFS pocketGrid (10, 8) (20, 8) = Returned \<lparr>path = [], exploredCount = nd\<rparr> \<and>
      runBFS pocketGrid (10, 8) (20, 8) = Returned \<lparr>path = [], exploredCount = nb\<rparr> \<and>
      runAStar pocketGrid (10, 8) (20, 8) = Returned \<lparr>path = [], exploredCount = na\<rparr> \<and>
      runDijkstra pocketGrid (10, 8) (20, 8) = Returned \<lparr>path = [], exploredCount = nk\<rparr> \<and>
      0 \<le> nd \<and> 0 \<le> nb \<and> 0 \<le> na \<and> 0 \<le> nk)"
proof -
  have c: "(10, 8) \<in> cells" by (simp add: cells_def GRID_ROWS_def GRID_COLS_def)
  have n: "\<forall>q. \<not> routeBetween pocketGrid (10, 8) (20, 8) q" using pocket_no_route by blast
  show ?thesis
    using searches_no_route [OF wf_pocketGrid c n] wf_pocketGrid c n
    by (simp add: traversable_pocketGrid)
qed




end
